theory Spec2Isabelle
  imports Complex_Main "HOL-Library.AList"
begin

section \<open>Mappings and startup recovery (main.py)\<close>

text \<open>
  A mapping is one entry of the list stored under the key \<open>mappings\<close> of
  \<open>mapping_db.json\<close>. Only the keys that the reconciliation engine reads are kept.
  Python floats are modelled as reals (rounding is not modelled), millisecond
  timestamps as integers.
\<close>

record mapping =
  abs_id :: string
  kosync_doc_id :: string
  ebook_filename :: string
  status :: string
  transcript_file :: "string option"

text \<open>
  \<^verbatim>\<open>
  def cleanup_stale_jobs(self):
      changed = False
      for mapping in self.db.get('mappings', []):
          if mapping.get('status') == 'crashed':
              mapping['status'] = 'active'
              changed = True
      if changed: self.db_handler.save(self.db)
  \<close>
  The model returns the list of mappings after the loop and the flag \<open>changed\<close>
  (whether the database file is saved).
\<close>

fun cleanup_stale_jobs :: "mapping list \<Rightarrow> mapping list \<times> bool" where
  "cleanup_stale_jobs [] = ([], False)"
| "cleanup_stale_jobs (m # ms) =
     (let (ms', changed) = cleanup_stale_jobs ms
      in if status m = ''crashed''
         then (m\<lparr>status := ''active''\<rparr> # ms', True)
         else (m # ms', changed))"

section \<open>Transcripts and the position normaliser\<close>

record segment =
  seg_start :: real
  seg_end :: real
  seg_text :: string

text \<open>
  What \<open>json.load\<close> yields for the transcript path: the file cannot be opened or
  parsed (also when the mapping has no transcript path), it holds a list of
  segments, it holds a dictionary (of which only the key \<open>duration\<close> is read), or it
  holds some other JSON value.
\<close>

datatype transcript_data =
    Unreadable
  | SegmentList "segment list"
  | DurationDict "real option"
  | OtherJson

text \<open>
  \<^verbatim>\<open>
  def _get_transcript_duration(self, transcript_path):
      try:
          with open(transcript_path, 'r') as f: data = json.load(f)
          if isinstance(data, list) and data: return data[-1].get('end', 0)
          return data.get('duration', 0) if isinstance(data, dict) else 0
      except: return 0
  \<close>
\<close>

fun get_transcript_duration :: "transcript_data \<Rightarrow> real" where
  "get_transcript_duration Unreadable = 0"
| "get_transcript_duration (SegmentList []) = 0"
| "get_transcript_duration (SegmentList (s # ss)) = seg_end (last (s # ss))"
| "get_transcript_duration (DurationDict None) = 0"
| "get_transcript_duration (DurationDict (Some d)) = d"
| "get_transcript_duration OtherJson = 0"

text \<open>
  \<^verbatim>\<open>
  def _abs_to_percentage(self, abs_seconds, transcript_path):
      duration = self._get_transcript_duration(transcript_path)
      return min(max(abs_seconds / duration, 0.0), 1.0) if duration > 0 else None
  \<close>
\<close>

definition abs_to_percentage :: "real \<Rightarrow> transcript_data \<Rightarrow> real option" where
  "abs_to_percentage abs_seconds td =
     (let duration = get_transcript_duration td
      in if duration > 0 then Some (min (max (abs_seconds / duration) 0) 1) else None)"

section \<open>The conflict arbiter (storyteller_db.py)\<close>

text \<open>
  JSON values as \<open>json.loads\<close> yields them. An object is an association list:
  Python dictionaries keep insertion order, \<open>d[k] = v\<close> replaces in place or
  appends (\<open>AList.update\<close>) and \<open>del d[k]\<close> removes the key (\<open>AList.delete\<close>).
\<close>

datatype json =
    JNull
  | JBool bool
  | JNum real
  | JStr string
  | JArr "json list"
  | JObj "(string \<times> json) list"

text \<open>
  The \<open>locator\<close> column of a position row: NULL or the empty string (falsy in
  Python), a text that \<open>json.loads\<close> rejects, or a text that parses to a JSON
  value; \<open>json.dumps\<close> of a value is stored as \<open>JsonText\<close> of that value.
\<close>

datatype locator_col = NoLocator | Unparsable | JsonText json

record book_row =
  book_uuid :: string
  book_title :: string

record position_row =
  pos_uuid :: string
  pos_book_uuid :: string
  pos_locator :: locator_col
  pos_timestamp :: int

record storyteller_db =
  books :: "book_row list"
  positions :: "position_row list"

text \<open>
  \<open>SELECT uuid FROM book WHERE title LIKE '%stem%'\<close> followed by \<open>fetchone\<close>. The
  SQL pattern match of the file name's stem against a title is the parameter
  \<open>like\<close> (file name, title).
\<close>

definition select_book :: "(string \<Rightarrow> string \<Rightarrow> bool) \<Rightarrow> storyteller_db \<Rightarrow> string \<Rightarrow> string option" where
  "select_book like db epub =
     map_option book_uuid (find (\<lambda>b. like epub (book_title b)) (books db))"

text \<open>
  \<open>ORDER BY timestamp DESC LIMIT 1\<close>: the first row, in table order, among those
  of greatest timestamp.
\<close>

fun latest_row :: "position_row list \<Rightarrow> position_row option" where
  "latest_row [] = None"
| "latest_row (r # rs) =
     (case latest_row rs of
        None \<Rightarrow> Some r
      | Some r' \<Rightarrow> if pos_timestamp r' > pos_timestamp r then Some r' else Some r)"

definition select_position :: "storyteller_db \<Rightarrow> string \<Rightarrow> position_row option" where
  "select_position db b = latest_row (filter (\<lambda>r. pos_book_uuid r = b) (positions db))"

text \<open>One executed statement \<open>UPDATE position SET locator = ?, timestamp = ? WHERE uuid = ?\<close>.\<close>

datatype sql_update = UpdatePosition string json int

fun apply_update :: "sql_update \<Rightarrow> storyteller_db \<Rightarrow> storyteller_db" where
  "apply_update (UpdatePosition u loc ts) db =
     db\<lparr>positions :=
          map (\<lambda>r. if pos_uuid r = u
                    then r\<lparr>pos_locator := JsonText loc, pos_timestamp := ts\<rparr> else r)
              (positions db)\<rparr>"

fun commit :: "sql_update option \<Rightarrow> storyteller_db \<Rightarrow> storyteller_db" where
  "commit None db = db"
| "commit (Some u) db = apply_update u db"

text \<open>
  \<^verbatim>\<open>
  locator = {}
  if pos_row['locator']:
      try: locator = json.loads(pos_row['locator'])
      except: pass
  \<close>
\<close>

fun load_locator :: "locator_col \<Rightarrow> json" where
  "load_locator NoLocator = JObj []"
| "load_locator Unparsable = JObj []"
| "load_locator (JsonText j) = j"

text \<open>The value of \<open>old_pct\<close> as a number; a Python bool is an int, anything else
  makes the subtraction raise \<open>TypeError\<close>.\<close>

fun json_number :: "json \<Rightarrow> real option" where
  "json_number (JNum r) = Some r"
| "json_number (JBool b) = Some (if b then 1 else 0)"
| "json_number _ = None"

fun json_truthy :: "json \<Rightarrow> bool" where
  "json_truthy JNull = False"
| "json_truthy (JBool b) = b"
| "json_truthy (JNum r) = (r \<noteq> 0)"
| "json_truthy (JStr s) = (s \<noteq> [])"
| "json_truthy (JArr xs) = (xs \<noteq> [])"
| "json_truthy (JObj kvs) = (kvs \<noteq> [])"

definition anchor_keys :: "string list" where
  "anchor_keys = [''cssSelector'', ''fragments'', ''position'', ''progression'']"

text \<open>
  \<^verbatim>\<open>
  for key in ['cssSelector', 'fragments', 'position', 'progression']:
      if key in locator['locations']:
          del locator['locations'][key]
  \<close>
\<close>

definition strip_anchors :: "(string \<times> json) list \<Rightarrow> (string \<times> json) list" where
  "strip_anchors locs =
     fold (\<lambda>key l. if map_of l key \<noteq> None then AList.delete key l else l) anchor_keys locs"

definition NORMAL_LEAP_MS :: int where
  "NORMAL_LEAP_MS = 10000"

definition FORCE_LEAP_MS :: int where
  "FORCE_LEAP_MS = 60000"

text \<open>
  The read-modify step of \<open>update_progress\<close> on the loaded locator (lines 149 to
  165). Every exception of the body is caught by the outer \<open>except\<close> of
  \<open>update_progress\<close>: a locator that is not a JSON object, a \<open>locations\<close> entry that
  is not an object, a \<open>totalProgression\<close> that is not a number (\<open>Raised\<close>). The early
  \<open>return True\<close> of line 155 is \<open>Unchanged\<close>.
  \<^verbatim>\<open>
  if 'locations' not in locator: locator['locations'] = {}
  old_pct = locator.get('locations', {}).get('totalProgression', 0)
  if abs(float(percentage) - old_pct) < 0.001:
      return True
  locator['locations']['totalProgression'] = float(percentage)
  for key in ['cssSelector', 'fragments', 'position', 'progression']: ...
  \<close>
\<close>

datatype mutation = Raised | Unchanged | Mutated json

definition old_pct_of :: "(string \<times> json) list \<Rightarrow> real option" where
  "old_pct_of locs =
     (case map_of locs ''totalProgression'' of None \<Rightarrow> Some 0 | Some v \<Rightarrow> json_number v)"

definition mutate_locations :: "(string \<times> json) list \<Rightarrow> (string \<times> json) list \<Rightarrow> real \<Rightarrow> mutation" where
  "mutate_locations locator locs percentage =
     (case old_pct_of locs of
        None \<Rightarrow> Raised
      | Some old_pct \<Rightarrow>
          if \<bar>percentage - old_pct\<bar> < 0.001 then Unchanged
          else Mutated (JObj (AList.update ''locations''
                 (JObj (strip_anchors (AList.update ''totalProgression'' (JNum percentage) locs)))
                 locator)))"

fun mutate_locator :: "json \<Rightarrow> real \<Rightarrow> mutation" where
  "mutate_locator (JObj locator0) percentage =
     (let locator = (if map_of locator0 ''locations'' = None
                     then AList.update ''locations'' (JObj []) locator0
                     else locator0)
      in case map_of locator ''locations'' of
           Some (JObj locs) \<Rightarrow> mutate_locations locator locs percentage
         | _ \<Rightarrow> Raised)"
| "mutate_locator _ percentage = Raised"

text \<open>
  \<open>StorytellerDB.update_progress\<close> (storyteller_db.py, lines 107 to 180). The result
  is the returned boolean and the UPDATE statement executed, if any. \<open>now_ms\<close> is
  \<open>int(time.time() * 1000)\<close>.
\<close>

definition update_progress ::
  "(string \<Rightarrow> string \<Rightarrow> bool) \<Rightarrow> storyteller_db \<Rightarrow> int \<Rightarrow> string \<Rightarrow> real
     \<Rightarrow> bool \<times> sql_update option" where
  "update_progress like db now_ms epub percentage =
     (case select_book like db epub of
        None \<Rightarrow> (False, None)
      | Some b \<Rightarrow>
          (case select_position db b of
             None \<Rightarrow> (False, None)
           | Some pos_row \<Rightarrow>
               (let current_ts = pos_timestamp pos_row;
                    new_ts = max now_ms current_ts + NORMAL_LEAP_MS
                in case mutate_locator (load_locator (pos_locator pos_row)) percentage of
                     Raised \<Rightarrow> (False, None)
                   | Unchanged \<Rightarrow> (True, None)
                   | Mutated locator \<Rightarrow>
                       (True, Some (UpdatePosition (pos_uuid pos_row) locator new_ts)))))"

text \<open>
  \<open>StorytellerDB.force_position_update\<close> (lines 234 to 297): the locator is rebuilt
  from scratch and the timestamp is \<open>now_ms + 60000\<close>. \<open>target_href\<close> is used when
  truthy (not \<open>None\<close>, not empty).
\<close>

definition force_position_update ::
  "(string \<Rightarrow> string \<Rightarrow> bool) \<Rightarrow> storyteller_db \<Rightarrow> int \<Rightarrow> string \<Rightarrow> real \<Rightarrow> string option
     \<Rightarrow> bool \<times> sql_update option" where
  "force_position_update like db now_ms epub percentage target_href =
     (case select_book like db epub of
        None \<Rightarrow> (False, None)
      | Some b \<Rightarrow>
          (case select_position db b of
             None \<Rightarrow> (False, None)
           | Some pos_row \<Rightarrow>
               (let new_ts = now_ms + FORCE_LEAP_MS
                in case load_locator (pos_locator pos_row) of
                     JObj old_locator \<Rightarrow>
                       (let locator =
                              [(''type'', (case map_of old_locator ''type'' of
                                             None \<Rightarrow> JStr ''application/xhtml+xml''
                                           | Some t \<Rightarrow> t)),
                               (''locations'', JObj [(''totalProgression'', JNum percentage)])];
                            locator' =
                              (case target_href of
                                 Some h \<Rightarrow>
                                   if h \<noteq> [] then AList.update ''href'' (JStr h) locator
                                   else (case map_of old_locator ''href'' of
                                           Some v \<Rightarrow> if json_truthy v
                                                      then AList.update ''href'' v locator
                                                      else locator
                                         | None \<Rightarrow> locator)
                               | None \<Rightarrow>
                                   (case map_of old_locator ''href'' of
                                      Some v \<Rightarrow> if json_truthy v
                                                 then AList.update ''href'' v locator
                                                 else locator
                                    | None \<Rightarrow> locator))
                        in (True, Some (UpdatePosition (pos_uuid pos_row) (JObj locator') new_ts)))
                   | _ \<Rightarrow> (False, None))))"

section \<open>The transcript aligner (transcriber.py)\<close>

text \<open>
  \<^verbatim>\<open>
  target_idx = -1
  for i, seg in enumerate(data):
      if seg['start'] <= timestamp <= seg['end']:
          target_idx = i
          break
  \<close>
  \<open>None\<close> stands for the index \<open>-1\<close>; the third argument is the index of the head.
\<close>

definition contains_ts :: "segment \<Rightarrow> real \<Rightarrow> bool" where
  "contains_ts seg timestamp = (seg_start seg \<le> timestamp \<and> timestamp \<le> seg_end seg)"

fun containing_idx :: "segment list \<Rightarrow> real \<Rightarrow> nat \<Rightarrow> nat option" where
  "containing_idx [] timestamp i = None"
| "containing_idx (seg # segs) timestamp i =
     (if contains_ts seg timestamp then Some i
      else containing_idx segs timestamp (Suc i))"

text \<open>
  \<^verbatim>\<open>
  closest_dist = float('inf')
  for i, seg in enumerate(data):
      dist = min(abs(timestamp - seg['start']), abs(timestamp - seg['end']))
      if dist < closest_dist:
          closest_dist = dist
          target_idx = i
  \<close>
  The distance \<open>None\<close> stands for infinity.
\<close>

definition boundary_dist :: "segment \<Rightarrow> real \<Rightarrow> real" where
  "boundary_dist seg timestamp = min \<bar>timestamp - seg_start seg\<bar> \<bar>timestamp - seg_end seg\<bar>"

fun closest_idx ::
  "segment list \<Rightarrow> real \<Rightarrow> nat \<Rightarrow> real option \<Rightarrow> nat option \<Rightarrow> nat option" where
  "closest_idx [] timestamp i closest_dist target_idx = target_idx"
| "closest_idx (seg # segs) timestamp i closest_dist target_idx =
     (let dist = boundary_dist seg timestamp
      in if (case closest_dist of None \<Rightarrow> True | Some d \<Rightarrow> dist < d)
         then closest_idx segs timestamp (Suc i) (Some dist) (Some i)
         else closest_idx segs timestamp (Suc i) closest_dist target_idx)"

definition find_target :: "segment list \<Rightarrow> real \<Rightarrow> nat option" where
  "find_target data timestamp =
     (case containing_idx data timestamp 0 of
        Some i \<Rightarrow> Some i
      | None \<Rightarrow> closest_idx data timestamp 0 None None)"

definition TARGET_LEN :: nat where
  "TARGET_LEN = 400"

definition text_len :: "segment list \<Rightarrow> nat \<Rightarrow> nat" where
  "text_len data i = length (seg_text (data ! i))"

text \<open>
  The expansion loop; one call is one test of the loop condition followed by one
  pass through the body. \<open>left\<close> is an integer because it runs down to \<open>-1\<close>.
  \<^verbatim>\<open>
  while current_len < TARGET_LEN:
      added = False
      if left >= 0:
          segments_indices.insert(0, left)
          current_len += len(data[left]['text'])
          left -= 1
          added = True
      if current_len >= TARGET_LEN: break
      if right < len(data):
          segments_indices.append(right)
          current_len += len(data[right]['text'])
          right += 1
          added = True
      if not added: break
  \<close>
\<close>

function expand :: "segment list \<Rightarrow> nat list \<Rightarrow> nat \<Rightarrow> int \<Rightarrow> nat \<Rightarrow> nat list" where
  "expand data segments_indices current_len left right =
     (if current_len < TARGET_LEN then
        (if left \<ge> 0 then
           (if current_len + text_len data (nat left) \<ge> TARGET_LEN
            then nat left # segments_indices
            else if right < length data
            then expand data ((nat left # segments_indices) @ [right])
                   (current_len + text_len data (nat left) + text_len data right)
                   (left - 1) (Suc right)
            else expand data (nat left # segments_indices)
                   (current_len + text_len data (nat left)) (left - 1) right)
         else
           (if right < length data
            then expand data (segments_indices @ [right])
                   (current_len + text_len data right) left (Suc right)
            else segments_indices))
      else segments_indices)"
  by pat_completeness auto
termination
  by (relation "measure (\<lambda>(data, idxs, cur, left, right). nat (left + 1) + (length data - right))")
     auto

text \<open>\<open>" ".join(parts)\<close>.\<close>

fun join_sp :: "string list \<Rightarrow> string" where
  "join_sp [] = []"
| "join_sp [x] = x"
| "join_sp (x # y # zs) = x @ '' '' @ join_sp (y # zs)"

text \<open>
  \<open>AudioTranscriber.get_text_at_time\<close> (lines 125 to 172). Anything but a list of
  segments makes the body raise or leaves \<open>target_idx\<close> at \<open>-1\<close>; both end in
  \<open>return None\<close>.
\<close>

fun get_text_at_time :: "transcript_data \<Rightarrow> real \<Rightarrow> string option" where
  "get_text_at_time (SegmentList data) timestamp =
     (case find_target data timestamp of
        None \<Rightarrow> None
      | Some target_idx \<Rightarrow>
          Some (join_sp (map (\<lambda>i. seg_text (data ! i))
                  (expand data [target_idx] (text_len data target_idx)
                     (int target_idx - 1) (Suc target_idx)))))"
| "get_text_at_time _ timestamp = None"

text \<open>
  \<open>process.extractOne(query, choices, scorer=...)\<close> of the rapidfuzz library, which is
  not part of the repository: the scorer is a parameter, and the selection is the
  best-scoring choice with its score and index, the first one among equals,
  \<open>None\<close> when there is no choice. The second argument is the index of the head.
\<close>

fun extractOne_from ::
  "(string \<Rightarrow> string \<Rightarrow> real) \<Rightarrow> nat \<Rightarrow> string \<Rightarrow> string list \<Rightarrow> (string \<times> real \<times> nat) option" where
  "extractOne_from scorer i query [] = None"
| "extractOne_from scorer i query (c # cs) =
     (case extractOne_from scorer (Suc i) query cs of
        None \<Rightarrow> Some (c, scorer query c, i)
      | Some (c', s', i') \<Rightarrow>
          if s' > scorer query c then Some (c', s', i') else Some (c, scorer query c, i))"

definition extractOne ::
  "(string \<Rightarrow> string \<Rightarrow> real) \<Rightarrow> string \<Rightarrow> string list \<Rightarrow> (string \<times> real \<times> nat) option" where
  "extractOne scorer query choices = extractOne_from scorer 0 query choices"

text \<open>
  \<^verbatim>\<open>
  texts = [d['text'] for d in data]
  match = process.extractOne(search_text, texts, scorer=fuzz.partial_ratio)
  if match and match[1] > 80:
      index = match[2]
      return data[index]['start']
  ...
  return None
  \<close>
\<close>

fun find_time_for_text ::
  "(string \<Rightarrow> string \<Rightarrow> real) \<Rightarrow> transcript_data \<Rightarrow> string \<Rightarrow> real option" where
  "find_time_for_text scorer (SegmentList data) search_text =
     (case extractOne scorer search_text (map seg_text data) of
        None \<Rightarrow> None
      | Some (c, score, index) \<Rightarrow>
          if score > 80 then Some (seg_start (data ! index)) else None)"
| "find_time_for_text scorer _ search_text = None"

text \<open>
  The window as the specification words it, for comparison with \<open>expand\<close>: start
  from the target segment alone; the first extension prepends the previous
  segment, the second appends the next one, and so on in alternation, a step on
  an exhausted side changing nothing. \<open>spec_window len target n\<close> is the window
  (first index, index after the last) after \<open>n\<close> extensions. The expansion is over
  when the text length reaches \<open>TARGET_LEN\<close> or both directions are exhausted.
\<close>

fun spec_window :: "nat \<Rightarrow> nat \<Rightarrow> nat \<Rightarrow> nat \<times> nat" where
  "spec_window len target 0 = (target, Suc target)"
| "spec_window len target (Suc n) =
     (case spec_window len target n of
        (lo, hi) \<Rightarrow>
          if even n then (if 0 < lo then (lo - 1, hi) else (lo, hi))
          else (if hi < len then (lo, Suc hi) else (lo, hi)))"

definition spec_window_done :: "segment list \<Rightarrow> nat \<times> nat \<Rightarrow> bool" where
  "spec_window_done data w =
     (TARGET_LEN \<le> sum_list (map (text_len data) [fst w..<snd w])
      \<or> (fst w = 0 \<and> snd w = length data))"

section \<open>Reading the sources (api_clients.py)\<close>

text \<open>
  The outcome of one HTTP GET: an exception (no connection, a body that is not
  JSON), or a status code with the value of the field read from the JSON body
  (\<open>None\<close> when the key is absent).
\<close>

datatype http_reply = NoReply | Reply nat "real option"

text \<open>
  \<open>ABSClient.get_progress\<close> and \<open>KoSyncClient.get_progress\<close> have the same shape:
  \<^verbatim>\<open>
  try:
      r = requests.get(url, headers=self.headers)
      if r.status_code == 200:
          return r.json().get('currentTime', 0)
  except Exception:
      pass
  return 0.0
  \<close>
\<close>

fun abs_get_progress :: "http_reply \<Rightarrow> real" where
  "abs_get_progress NoReply = 0"
| "abs_get_progress (Reply code currentTime) =
     (if code = 200 then (case currentTime of None \<Rightarrow> 0 | Some v \<Rightarrow> v) else 0)"

fun kosync_get_progress :: "http_reply \<Rightarrow> real" where
  "kosync_get_progress NoReply = 0"
| "kosync_get_progress (Reply code percentage) =
     (if code = 200 then (case percentage of None \<Rightarrow> 0 | Some v \<Rightarrow> v) else 0)"

section \<open>The sync cycle (main.py)\<close>

datatype source = KOSYNC | STORYTELLER | ABS

text \<open>
  What one mapping's pass through the loop of \<open>sync_cycle\<close> reads: the two HTTP
  replies, the first component of \<open>storyteller_db.get_progress(epub)\<close> (\<open>None\<close> when
  the store has no position or cannot be read) and the content of the mapping's
  transcript file.
\<close>

record readings =
  abs_reply :: http_reply
  ko_reply :: http_reply
  st_progress :: "real option"
  transcript_json :: transcript_data

text \<open>One entry of \<open>last_state.json\<close>, keyed by \<open>abs_id\<close>.\<close>

record sync_state =
  last_abs_ts :: real
  last_abs_pct :: real
  last_kosync_pct :: real
  last_storyteller_pct :: real
  last_updated :: real

record config =
  delta_abs_thresh :: real
  delta_kosync_thresh :: real

text \<open>
  The collaborators of the propagation step whose code is outside the modelled
  files, as parameters: the ebook index (\<open>find_text_location\<close> gives the matched
  percentage and the xpath, \<open>get_text_at_percentage\<close> the text at a percentage),
  the text of the Storyteller fragment (lines 236 and 237, \<open>None\<close> when there is no
  fragment or the extraction fails) and the fuzzy scorer. Exceptions raised by
  them are not modelled.
\<close>

record collab =
  find_text_location :: "string \<Rightarrow> string \<Rightarrow> real option \<Rightarrow> real option \<times> string option"
  get_text_at_percentage :: "string \<Rightarrow> real \<Rightarrow> string option"
  fragment_text :: "string \<Rightarrow> string option"
  fuzz_scorer :: "string \<Rightarrow> string \<Rightarrow> real"

text \<open>The calls that write to a source; \<open>HardcoverSync\<close> stands for lines 249 and 250.\<close>

datatype write_call =
    AbsUpdate string real
  | KosyncUpdate string real "string option"
  | StorytellerUpdate string real
  | HardcoverSync real

text \<open>Python truthiness of an optional string and of an optional float.\<close>

fun truthy_text :: "string option \<Rightarrow> bool" where
  "truthy_text None = False"
| "truthy_text (Some s) = (s \<noteq> [])"

fun truthy_num :: "real option \<Rightarrow> bool" where
  "truthy_num None = False"
| "truthy_num (Some x) = (x \<noteq> 0)"

text \<open>\<open>x or 0.0\<close> for an optional float.\<close>

fun or_zero :: "real option \<Rightarrow> real" where
  "or_zero None = 0"
| "or_zero (Some x) = x"

text \<open>
  \<^verbatim>\<open>
  progress_map = {'KOSYNC': ko_pct, 'STORYTELLER': st_pct}
  if abs_pct is not None: progress_map['ABS'] = abs_pct
  leader = max(progress_map, key=progress_map.get)
  \<close>
  The dictionary keeps insertion order and \<open>max\<close> keeps the first of the greatest
  entries: a later entry replaces the best one only when it is strictly greater.
\<close>

definition progress_map :: "real \<Rightarrow> real \<Rightarrow> real option \<Rightarrow> (source \<times> real) list" where
  "progress_map ko_pct st_pct abs_pct =
     [(KOSYNC, ko_pct), (STORYTELLER, st_pct)]
       @ (case abs_pct of None \<Rightarrow> [] | Some p \<Rightarrow> [(ABS, p)])"

fun first_max :: "source \<times> real \<Rightarrow> (source \<times> real) list \<Rightarrow> source \<times> real" where
  "first_max best [] = best"
| "first_max best (x # xs) = first_max (if snd x > snd best then x else best) xs"

fun max_entry :: "(source \<times> real) list \<Rightarrow> (source \<times> real) option" where
  "max_entry [] = None"
| "max_entry (x # xs) = Some (first_max x xs)"

text \<open>
  Lines 211 to 250: the propagation for the chosen leader. The result is the
  list of write calls in the order issued, \<open>final_ts\<close> and \<open>final_pct\<close>.
\<close>

definition propagate ::
  "collab \<Rightarrow> mapping \<Rightarrow> transcript_data \<Rightarrow> source \<Rightarrow> real \<Rightarrow> real \<Rightarrow> real \<Rightarrow> real \<Rightarrow> real option
     \<Rightarrow> write_call list \<times> real \<times> real" where
  "propagate c m td leader leader_pct abs_ts ko_pct st_pct abs_pct =
     (let (ws, final_ts, final_pct, sync_success) =
        (case leader of
           ABS \<Rightarrow>
             (let txt = get_text_at_time td abs_ts
              in if truthy_text txt then
                   (let (match_pct, xpath) =
                          find_text_location c (ebook_filename m) (the txt) abs_pct
                    in if truthy_num match_pct
                       then ([KosyncUpdate (kosync_doc_id m) (the match_pct) xpath,
                              StorytellerUpdate (ebook_filename m) (the match_pct)],
                             abs_ts, the match_pct, True)
                       else ([], abs_ts, leader_pct, False))
                 else ([], abs_ts, leader_pct, False))
         | KOSYNC \<Rightarrow>
             (let txt = get_text_at_percentage c (ebook_filename m) ko_pct
              in if truthy_text txt then
                   (let ts = find_time_for_text (fuzz_scorer c) td (the txt)
                    in if truthy_num ts
                       then ([AbsUpdate (abs_id m) (the ts),
                              StorytellerUpdate (ebook_filename m) ko_pct],
                             the ts, leader_pct, True)
                       else ([], abs_ts, leader_pct, False))
                 else ([], abs_ts, leader_pct, False))
         | STORYTELLER \<Rightarrow>
             (let txt0 = fragment_text c (ebook_filename m);
                  txt = (if truthy_text txt0 then txt0
                         else get_text_at_percentage c (ebook_filename m) st_pct)
              in if truthy_text txt then
                   (let ts = find_time_for_text (fuzz_scorer c) td (the txt)
                    in if truthy_num ts
                       then ([AbsUpdate (abs_id m) (the ts),
                              KosyncUpdate (kosync_doc_id m) st_pct
                                (snd (find_text_location c (ebook_filename m) (the txt) None))],
                             the ts, leader_pct, True)
                       else ([], abs_ts, leader_pct, False))
                 else ([], abs_ts, leader_pct, False)))
      in (if sync_success \<and> final_pct > 0.01 then ws @ [HardcoverSync final_pct] else ws,
          final_ts, final_pct))"

text \<open>
  What the pass does for one mapping: nothing (the status is not \<open>active\<close>); the
  drift check finds no change, the state entry is refreshed and the loop goes on
  (\<open>Suppressed\<close> with the entry saved); or a leader is chosen among the candidates
  and propagation is attempted (\<open>Reconciled\<close> with the candidates, the leader, the
  write calls issued and the entry saved).
\<close>

datatype outcome =
    Skipped
  | Suppressed sync_state
  | Reconciled "(source \<times> real) list" source "write_call list" sync_state

fun writes_of :: "outcome \<Rightarrow> write_call list" where
  "writes_of (Reconciled cands leader ws st) = ws"
| "writes_of _ = []"

fun saved_state :: "outcome \<Rightarrow> sync_state option" where
  "saved_state Skipped = None"
| "saved_state (Suppressed st) = Some st"
| "saved_state (Reconciled cands leader ws st) = Some st"

text \<open>
  The body of the loop of \<open>sync_cycle\<close> (lines 181 to 255) for one mapping. \<open>prev\<close> is
  \<open>self.state.get(abs_id)\<close>, \<open>now\<close> is \<open>time.time()\<close>.
\<close>

definition sync_mapping ::
  "config \<Rightarrow> collab \<Rightarrow> real \<Rightarrow> mapping \<Rightarrow> readings \<Rightarrow> sync_state option \<Rightarrow> outcome" where
  "sync_mapping cfg c now m rd prev =
     (if status m \<noteq> ''active'' then Skipped
      else
        (let abs_ts = abs_get_progress (abs_reply rd);
             ko_pct = kosync_get_progress (ko_reply rd);
             st_pct = or_zero (st_progress rd);
             abs_pct = abs_to_percentage abs_ts (transcript_json rd);
             abs_changed = \<bar>abs_ts - (case prev of None \<Rightarrow> 0 | Some p \<Rightarrow> last_abs_ts p)\<bar>
                             > delta_abs_thresh cfg;
             ko_changed = \<bar>ko_pct - (case prev of None \<Rightarrow> 0 | Some p \<Rightarrow> last_kosync_pct p)\<bar>
                             > delta_kosync_thresh cfg;
             st_changed = \<bar>st_pct - (case prev of None \<Rightarrow> 0 | Some p \<Rightarrow> last_storyteller_pct p)\<bar>
                             > delta_kosync_thresh cfg
         in if \<not> (abs_changed \<or> ko_changed \<or> st_changed)
            then Suppressed
                   \<lparr>last_abs_ts = abs_ts, last_abs_pct = or_zero abs_pct,
                    last_kosync_pct = ko_pct, last_storyteller_pct = st_pct,
                    last_updated = (case prev of None \<Rightarrow> 0 | Some p \<Rightarrow> last_updated p)\<rparr>
            else
              (case max_entry (progress_map ko_pct st_pct abs_pct) of
                 None \<Rightarrow> Skipped
               | Some (leader, leader_pct) \<Rightarrow>
                   (let (ws, final_ts, final_pct) =
                          propagate c m (transcript_json rd) leader leader_pct
                            abs_ts ko_pct st_pct abs_pct
                    in Reconciled (progress_map ko_pct st_pct abs_pct) leader ws
                         \<lparr>last_abs_ts = final_ts,
                          last_abs_pct = or_zero (abs_to_percentage final_ts (transcript_json rd)),
                          last_kosync_pct = final_pct, last_storyteller_pct = final_pct,
                          last_updated = now\<rparr>))))"

section \<open>Concrete inputs\<close>

definition stuck_job :: mapping where
  "stuck_job = \<lparr>abs_id = ''a1'', kosync_doc_id = ''k1'', ebook_filename = ''book.epub'',
     status = ''processing'', transcript_file = None\<rparr>"

definition like_eq :: "string \<Rightarrow> string \<Rightarrow> bool" where
  "like_eq epub title = (title = epub)"

definition demo_locator :: json where
  "demo_locator = JObj
     [(''href'', JStr ''ch3.xhtml''),
      (''type'', JStr ''application/xhtml+xml''),
      (''locations'', JObj
         [(''cssSelector'', JStr ''p:nth-child(4)''),
          (''totalProgression'', JNum (1 / 4)),
          (''fragments'', JArr [JStr ''id-7'']),
          (''position'', JNum 12),
          (''progression'', JNum (1 / 2))])]"

definition demo_db :: storyteller_db where
  "demo_db = \<lparr>books = [\<lparr>book_uuid = ''b1'', book_title = ''Dune''\<rparr>],
     positions =
       [\<lparr>pos_uuid = ''p0'', pos_book_uuid = ''b1'', pos_locator = NoLocator,
          pos_timestamp = 5000\<rparr>,
        \<lparr>pos_uuid = ''p1'', pos_book_uuid = ''b1'', pos_locator = JsonText demo_locator,
          pos_timestamp = 100000\<rparr>]\<rparr>"

definition silent_transcript :: "segment list" where
  "silent_transcript = [\<lparr>seg_start = 0, seg_end = 1, seg_text = []\<rparr>]"

definition short_transcript :: "segment list" where
  "short_transcript =
     [\<lparr>seg_start = 0, seg_end = 1, seg_text = ''ab''\<rparr>,
      \<lparr>seg_start = 1, seg_end = 2, seg_text = ''cd''\<rparr>,
      \<lparr>seg_start = 3, seg_end = 4, seg_text = ''ef''\<rparr>]"

definition long_transcript :: "segment list" where
  "long_transcript =
     [\<lparr>seg_start = 0, seg_end = 10, seg_text = replicate 250 (CHR ''a'')\<rparr>,
      \<lparr>seg_start = 10, seg_end = 20, seg_text = replicate 250 (CHR ''b'')\<rparr>,
      \<lparr>seg_start = 20, seg_end = 30, seg_text = replicate 250 (CHR ''c'')\<rparr>]"

text \<open>
  A scorer for concrete runs: 100 for equal strings and 0 otherwise. On equal
  strings it agrees with \<open>fuzz.partial_ratio\<close>, which gives an exact match 100.
\<close>

definition exact_scorer :: "string \<Rightarrow> string \<Rightarrow> real" where
  "exact_scorer query choice = (if query = choice then 100 else 0)"

definition echo_transcript :: "segment list" where
  "echo_transcript =
     [\<lparr>seg_start = 0, seg_end = 5, seg_text = ''the end''\<rparr>,
      \<lparr>seg_start = 5, seg_end = 10, seg_text = ''the end''\<rparr>]"

definition demo_cfg :: config where
  "demo_cfg = \<lparr>delta_abs_thresh = 60, delta_kosync_thresh = 1 / 100\<rparr>"

definition active_mapping :: mapping where
  "active_mapping = \<lparr>abs_id = ''a1'', kosync_doc_id = ''k1'', ebook_filename = ''book.epub'',
     status = ''active'', transcript_file = Some ''a1.json''\<rparr>"

definition demo_collab :: collab where
  "demo_collab = \<lparr>find_text_location = (\<lambda>epub found hint. (Some (1 / 2), Some ''/body/p3'')),
     get_text_at_percentage = (\<lambda>epub pct. None),
     fragment_text = (\<lambda>epub. None),
     fuzz_scorer = exact_scorer\<rparr>"

definition demo_prev :: sync_state where
  "demo_prev = \<lparr>last_abs_ts = 100, last_abs_pct = 1 / 10, last_kosync_pct = 1 / 2,
     last_storyteller_pct = 1 / 2, last_updated = 1000\<rparr>"

definition quiet_readings :: readings where
  "quiet_readings = \<lparr>abs_reply = Reply 200 (Some 130), ko_reply = Reply 200 (Some (101 / 200)),
     st_progress = Some (1 / 2), transcript_json = Unreadable\<rparr>"

definition moved_readings :: readings where
  "moved_readings = \<lparr>abs_reply = Reply 200 (Some 15), ko_reply = Reply 200 (Some (3 / 10)),
     st_progress = None, transcript_json = SegmentList long_transcript\<rparr>"

definition tie_readings :: readings where
  "tie_readings = \<lparr>abs_reply = NoReply, ko_reply = Reply 200 (Some (3 / 5)),
     st_progress = Some (3 / 5), transcript_json = Unreadable\<rparr>"

definition failed_readings :: readings where
  "failed_readings = \<lparr>abs_reply = NoReply, ko_reply = NoReply, st_progress = None,
     transcript_json = Unreadable\<rparr>"

section \<open>Startup recovery\<close>

text \<open>
  C1. Startup recovery is specified to reset every mapping found in status
  \<open>processing\<close> to \<open>active\<close>. \<open>cleanup_stale_jobs\<close> compares the status with
  \<open>crashed\<close> instead: a database holding one mapping in status \<open>processing\<close> is
  returned unchanged, the mapping is still \<open>processing\<close>, and nothing is saved.
\<close>

theorem cleanup_stale_jobs_keeps_processing:
  "cleanup_stale_jobs [stuck_job] = ([stuck_job], False)
   \<and> status (hd (fst (cleanup_stale_jobs [stuck_job]))) = ''processing''"
  by (simp add: stuck_job_def)

section \<open>Position normaliser\<close>



section \<open>Conflict arbiter: auxiliary facts\<close>

lemma cond_delete: "(if map_of l k \<noteq> None then AList.delete k l else l) = AList.delete k l"
  by (simp add: map_of_eq_None_iff)

lemma fold_delete_conv:
  "map_of (fold (\<lambda>key l. if map_of l key \<noteq> None then AList.delete key l else l) ks l) k
     = (if k \<in> set ks then None else map_of l k)"
  unfolding cond_delete
  by (induction ks arbitrary: l) (simp_all add: delete_conv)

lemma strip_anchors_conv:
  "map_of (strip_anchors l) k = (if k \<in> set anchor_keys then None else map_of l k)"
  unfolding strip_anchors_def by (rule fold_delete_conv)

lemma mutate_locations_Mutated:
  assumes "mutate_locations locator locs p = Mutated j"
  shows "j = JObj (AList.update ''locations''
                 (JObj (strip_anchors (AList.update ''totalProgression'' (JNum p) locs))) locator)"
proof (cases "old_pct_of locs")
  case None
  with assms show ?thesis by (simp add: mutate_locations_def)
next
  case (Some old_pct)
  with assms show ?thesis by (simp add: mutate_locations_def split: if_splits)
qed

lemma mutate_locator_Mutated:
  assumes "mutate_locator loaded p = Mutated j"
  shows "\<exists>old locs. loaded = JObj old
          \<and> (map_of old ''locations'' = None \<and> locs = []
               \<or> map_of old ''locations'' = Some (JObj locs))
          \<and> j = JObj (AList.update ''locations''
                 (JObj (strip_anchors (AList.update ''totalProgression'' (JNum p) locs))) old)"
proof (cases loaded)
  case (JObj old)
  show ?thesis
  proof (cases "map_of old ''locations''")
    case None
    have look: "map_of (AList.update ''locations'' (JObj []) old) ''locations'' = Some (JObj [])"
      by (simp only: update_conv' fun_upd_same)
    from JObj None assms look
    have "mutate_locations (AList.update ''locations'' (JObj []) old) [] p = Mutated j"
      by simp
    from mutate_locations_Mutated[OF this]
    have "j = JObj (AList.update ''locations''
                 (JObj (strip_anchors (AList.update ''totalProgression'' (JNum p) []))) old)"
      by (simp only: update_last)
    with JObj None show ?thesis by blast
  next
    case (Some v)
    show ?thesis
    proof (cases v)
      case (JObj locs)
      from \<open>loaded = JObj old\<close> Some JObj assms
      have "mutate_locations old locs p = Mutated j"
        by simp
      from mutate_locations_Mutated[OF this] \<open>loaded = JObj old\<close> Some JObj
      show ?thesis by blast
    qed (use \<open>loaded = JObj old\<close> Some assms in simp_all)
  qed
qed (use assms in simp_all)

lemma update_progress_cases:
  obtains (no_book) "select_book like db epub = None"
      "update_progress like db now_ms epub p = (False, None)"
  | (no_row) b where "select_book like db epub = Some b" "select_position db b = None"
      "update_progress like db now_ms epub p = (False, None)"
  | (row) b row where "select_book like db epub = Some b" "select_position db b = Some row"
      "update_progress like db now_ms epub p =
         (case mutate_locator (load_locator (pos_locator row)) p of
            Raised \<Rightarrow> (False, None)
          | Unchanged \<Rightarrow> (True, None)
          | Mutated locator \<Rightarrow>
              (True, Some (UpdatePosition (pos_uuid row) locator
                             (max now_ms (pos_timestamp row) + NORMAL_LEAP_MS))))"
proof (cases "select_book like db epub")
  case None
  then show ?thesis using no_book by (simp add: update_progress_def)
next
  case (Some b)
  show ?thesis
  proof (cases "select_position db b")
    case None
    with Some show ?thesis using no_row by (simp add: update_progress_def)
  next
    case (Some row)
    with \<open>select_book like db epub = Some b\<close> show ?thesis
      using row by (simp add: update_progress_def Let_def)
  qed
qed

lemma update_progress_write:
  assumes "update_progress like db now_ms epub p = (r, Some w)"
  shows "\<exists>b row old locs.
           select_book like db epub = Some b
         \<and> select_position db b = Some row
         \<and> load_locator (pos_locator row) = JObj old
         \<and> (map_of old ''locations'' = None \<and> locs = []
              \<or> map_of old ''locations'' = Some (JObj locs))
         \<and> r
         \<and> w = UpdatePosition (pos_uuid row)
                 (JObj (AList.update ''locations''
                          (JObj (strip_anchors (AList.update ''totalProgression'' (JNum p) locs)))
                          old))
                 (max now_ms (pos_timestamp row) + NORMAL_LEAP_MS)"
proof (rule update_progress_cases[where like=like and db=db and epub=epub and now_ms=now_ms and p=p], goal_cases no_book no_row row)
  case no_book
  with assms show ?thesis by simp
next
  case (no_row b)
  with assms show ?thesis by simp
next
  case (row b row)
  show ?thesis
  proof (cases "mutate_locator (load_locator (pos_locator row)) p")
    case (Mutated j)
    from mutate_locator_Mutated[OF this] obtain old locs where
      "load_locator (pos_locator row) = JObj old"
      "map_of old ''locations'' = None \<and> locs = [] \<or> map_of old ''locations'' = Some (JObj locs)"
      "j = JObj (AList.update ''locations''
                 (JObj (strip_anchors (AList.update ''totalProgression'' (JNum p) locs))) old)"
      by blast
    moreover from row(3) Mutated assms have "r" 
      "w = UpdatePosition (pos_uuid row) j (max now_ms (pos_timestamp row) + NORMAL_LEAP_MS)"
      by simp_all
    ultimately show ?thesis using row(1,2) by blast
  qed (use row(3) assms in simp_all)
qed

lemma force_position_update_write:
  assumes "force_position_update like db now_ms epub p href = (r, Some w)"
  shows "\<exists>b row loc. select_book like db epub = Some b \<and> select_position db b = Some row
           \<and> r \<and> w = UpdatePosition (pos_uuid row) loc (now_ms + FORCE_LEAP_MS)"
proof (cases "select_book like db epub")
  case None
  with assms show ?thesis by (simp add: force_position_update_def)
next
  case (Some b)
  show ?thesis
  proof (cases "select_position db b")
    case None
    with Some assms show ?thesis by (simp add: force_position_update_def)
  next
    case (Some row)
    show ?thesis
    proof (cases "load_locator (pos_locator row)")
      case (JObj old)
      with Some \<open>select_book like db epub = Some b\<close> assms show ?thesis
        by (simp add: force_position_update_def Let_def) blast
    qed (use Some \<open>select_book like db epub = Some b\<close> assms in
          \<open>simp_all add: force_position_update_def Let_def\<close>)
  qed
qed

section \<open>Conflict arbiter: the leap of the logical timestamp\<close>

text \<open>
  C3 (as amended). A write of the normal tier (\<open>update_progress\<close>) carries the
  timestamp \<open>max(now_ms, existing_ts) + 10000\<close>, which exceeds
  \<open>existing_ts + 10000 - 1\<close> and the wall clock. A write of the force tier
  (\<open>force_position_update\<close>) carries \<open>now_ms + 60000\<close>, whatever the existing
  timestamp is: it exceeds the wall clock, and it agrees with the maximum formula
  when the existing timestamp is not ahead of the wall clock.
\<close>

theorem leap_timestamps:
  "(update_progress like db now_ms epub p = (r, Some (UpdatePosition u loc ts)) \<longrightarrow>
      (\<exists>b row. select_book like db epub = Some b \<and> select_position db b = Some row
         \<and> ts = max now_ms (pos_timestamp row) + NORMAL_LEAP_MS
         \<and> ts > pos_timestamp row + NORMAL_LEAP_MS - 1 \<and> ts > now_ms))
   \<and> (force_position_update like db now_ms epub p href = (r', Some (UpdatePosition u' loc' ts')) \<longrightarrow>
      (\<exists>b row. select_book like db epub = Some b \<and> select_position db b = Some row
         \<and> ts' = now_ms + FORCE_LEAP_MS \<and> ts' > now_ms
         \<and> (pos_timestamp row \<le> now_ms \<longrightarrow>
               ts' = max now_ms (pos_timestamp row) + FORCE_LEAP_MS
             \<and> ts' > pos_timestamp row + FORCE_LEAP_MS - 1)))"
proof (intro conjI impI)
  assume "update_progress like db now_ms epub p = (r, Some (UpdatePosition u loc ts))"
  from update_progress_write[OF this] obtain b row where
    "select_book like db epub = Some b" "select_position db b = Some row"
    "ts = max now_ms (pos_timestamp row) + NORMAL_LEAP_MS" by auto
  moreover have "(0::int) < NORMAL_LEAP_MS" by (simp add: NORMAL_LEAP_MS_def)
  ultimately show "\<exists>b row. select_book like db epub = Some b \<and> select_position db b = Some row
         \<and> ts = max now_ms (pos_timestamp row) + NORMAL_LEAP_MS
         \<and> ts > pos_timestamp row + NORMAL_LEAP_MS - 1 \<and> ts > now_ms"
    by (intro exI[of _ b] exI[of _ row]) (simp add: max_def)
next
  assume "force_position_update like db now_ms epub p href = (r', Some (UpdatePosition u' loc' ts'))"
  from force_position_update_write[OF this] obtain b row where
    "select_book like db epub = Some b" "select_position db b = Some row"
    "ts' = now_ms + FORCE_LEAP_MS" by auto
  moreover have "(0::int) < FORCE_LEAP_MS" by (simp add: FORCE_LEAP_MS_def)
  ultimately show "\<exists>b row. select_book like db epub = Some b \<and> select_position db b = Some row
         \<and> ts' = now_ms + FORCE_LEAP_MS \<and> ts' > now_ms
         \<and> (pos_timestamp row \<le> now_ms \<longrightarrow>
               ts' = max now_ms (pos_timestamp row) + FORCE_LEAP_MS
             \<and> ts' > pos_timestamp row + FORCE_LEAP_MS - 1)"
    by (intro exI[of _ b] exI[of _ row]) (simp add: max_def)
qed

theorem leap_timestamps_witness:
  "update_progress like_eq demo_db 200000 ''Dune'' (1 / 2) =
     (True, Some (UpdatePosition ''p1''
        (JObj [(''href'', JStr ''ch3.xhtml''), (''type'', JStr ''application/xhtml+xml''),
               (''locations'', JObj [(''totalProgression'', JNum (1 / 2))])]) 210000))
   \<and> force_position_update like_eq demo_db 200000 ''Dune'' (1 / 2) None =
     (True, Some (UpdatePosition ''p1''
        (JObj [(''type'', JStr ''application/xhtml+xml''),
               (''locations'', JObj [(''totalProgression'', JNum (1 / 2))]),
               (''href'', JStr ''ch3.xhtml'')]) 260000))
   \<and> (\<exists>b row. select_book like_eq demo_db ''Dune'' = Some b
         \<and> select_position demo_db b = Some row
         \<and> 210000 = max 200000 (pos_timestamp row) + NORMAL_LEAP_MS
         \<and> 260000 = max 200000 (pos_timestamp row) + FORCE_LEAP_MS
         \<and> pos_timestamp row \<le> 200000)"
proof -
  have a: "update_progress like_eq demo_db 200000 ''Dune'' (1 / 2) =
     (True, Some (UpdatePosition ''p1''
        (JObj [(''href'', JStr ''ch3.xhtml''), (''type'', JStr ''application/xhtml+xml''),
               (''locations'', JObj [(''totalProgression'', JNum (1 / 2))])]) 210000))"
    by code_simp
  have b: "force_position_update like_eq demo_db 200000 ''Dune'' (1 / 2) None =
     (True, Some (UpdatePosition ''p1''
        (JObj [(''type'', JStr ''application/xhtml+xml''),
               (''locations'', JObj [(''totalProgression'', JNum (1 / 2))]),
               (''href'', JStr ''ch3.xhtml'')]) 260000))"
    by code_simp
  have c: "select_position demo_db ''b1'' =
      Some \<lparr>pos_uuid = ''p1'', pos_book_uuid = ''b1'', pos_locator = JsonText demo_locator,
            pos_timestamp = 100000\<rparr>"
    by (simp add: select_position_def demo_db_def)
  have d: "select_book like_eq demo_db ''Dune'' = Some ''b1''"
    by (simp add: select_book_def like_eq_def demo_db_def)
  from leap_timestamps[of like_eq demo_db 200000 "''Dune''" "1 / 2" True "''p1''" _ 210000
         None True "''p1''" _ 260000] a b c d
  show ?thesis by simp
qed

theorem force_leap_counterexample:
  "force_position_update like_eq demo_db 50000 ''Dune'' (1 / 2) None =
     (True, Some (UpdatePosition ''p1''
        (JObj [(''type'', JStr ''application/xhtml+xml''),
               (''locations'', JObj [(''totalProgression'', JNum (1 / 2))]),
               (''href'', JStr ''ch3.xhtml'')]) 110000))
   \<and> map_option pos_timestamp (select_position demo_db ''b1'') = Some 100000
   \<and> (110000 :: int) \<noteq> max 50000 100000 + FORCE_LEAP_MS
   \<and> \<not> ((110000 :: int) > 100000 + FORCE_LEAP_MS - 1)"
proof -
  have b: "force_position_update like_eq demo_db 50000 ''Dune'' (1 / 2) None =
     (True, Some (UpdatePosition ''p1''
        (JObj [(''type'', JStr ''application/xhtml+xml''),
               (''locations'', JObj [(''totalProgression'', JNum (1 / 2))]),
               (''href'', JStr ''ch3.xhtml'')]) 110000))"
    by code_simp
  have c: "map_option pos_timestamp (select_position demo_db ''b1'') = Some 100000"
    by (simp add: select_position_def demo_db_def)
  show ?thesis using b c by (simp add: FORCE_LEAP_MS_def)
qed

section \<open>Conflict arbiter: what a write changes\<close>

text \<open>
  C9. When \<open>update_progress\<close> writes over the latest position row of the book, the
  written locator agrees with the loaded one on every key but \<open>locations\<close> (so
  \<open>href\<close> and \<open>type\<close> are kept); inside \<open>locations\<close> the key \<open>totalProgression\<close>
  holds the new percentage, the keys \<open>cssSelector\<close>, \<open>fragments\<close>, \<open>position\<close> and
  \<open>progression\<close> are absent, and every other key is as before. The locator and the
  new timestamp are written by one UPDATE statement on the rows whose uuid is
  that of the row read; every other row, and the book table, are unchanged.
\<close>

theorem update_progress_frame:
  assumes "update_progress like db now_ms epub p = (r, Some w)"
  shows "\<exists>b row old new new_locs.
           select_book like db epub = Some b
         \<and> select_position db b = Some row
         \<and> load_locator (pos_locator row) = JObj old
         \<and> r
         \<and> w = UpdatePosition (pos_uuid row) (JObj new)
                 (max now_ms (pos_timestamp row) + NORMAL_LEAP_MS)
         \<and> (\<forall>k. k \<noteq> ''locations'' \<longrightarrow> map_of new k = map_of old k)
         \<and> map_of new ''locations'' = Some (JObj new_locs)
         \<and> map_of new_locs ''totalProgression'' = Some (JNum p)
         \<and> (\<forall>k \<in> set anchor_keys. map_of new_locs k = None)
         \<and> (\<forall>k. k \<notin> set anchor_keys \<and> k \<noteq> ''totalProgression'' \<longrightarrow>
               map_of new_locs k =
                 (case map_of old ''locations'' of Some (JObj l) \<Rightarrow> map_of l k | _ \<Rightarrow> None))
         \<and> books (commit (Some w) db) = books db
         \<and> positions (commit (Some w) db) =
             map (\<lambda>x. if pos_uuid x = pos_uuid row
                       then x\<lparr>pos_locator := JsonText (JObj new),
                              pos_timestamp := max now_ms (pos_timestamp row) + NORMAL_LEAP_MS\<rparr>
                       else x) (positions db)"
proof -
  from update_progress_write[OF assms] obtain b row old locs where
    b: "select_book like db epub = Some b" and row: "select_position db b = Some row"
    and old: "load_locator (pos_locator row) = JObj old"
    and locs: "map_of old ''locations'' = None \<and> locs = []
              \<or> map_of old ''locations'' = Some (JObj locs)"
    and r: r
    and w: "w = UpdatePosition (pos_uuid row)
                 (JObj (AList.update ''locations''
                          (JObj (strip_anchors (AList.update ''totalProgression'' (JNum p) locs)))
                          old))
                 (max now_ms (pos_timestamp row) + NORMAL_LEAP_MS)"
    by blast
  define new_locs where "new_locs = strip_anchors (AList.update ''totalProgression'' (JNum p) locs)"
  define new where "new = AList.update ''locations'' (JObj new_locs) old"
  have tp: "''totalProgression'' \<notin> set anchor_keys" by (simp add: anchor_keys_def)
  have 1: "\<forall>k. k \<noteq> ''locations'' \<longrightarrow> map_of new k = map_of old k"
    unfolding new_def by (simp only: update_conv' fun_upd_apply) simp
  have 2: "map_of new ''locations'' = Some (JObj new_locs)"
    unfolding new_def by (simp only: update_conv' fun_upd_same)
  have 3: "map_of new_locs ''totalProgression'' = Some (JNum p)"
    unfolding new_locs_def strip_anchors_conv using tp
    by (simp only: update_conv' fun_upd_same if_False)
  have 4: "\<forall>k \<in> set anchor_keys. map_of new_locs k = None"
    unfolding new_locs_def strip_anchors_conv by simp
  have 5: "\<forall>k. k \<notin> set anchor_keys \<and> k \<noteq> ''totalProgression'' \<longrightarrow>
               map_of new_locs k =
                 (case map_of old ''locations'' of Some (JObj l) \<Rightarrow> map_of l k | _ \<Rightarrow> None)"
  proof (intro allI impI)
    fix k assume k: "k \<notin> set anchor_keys \<and> k \<noteq> ''totalProgression''"
    then have "map_of new_locs k = map_of locs k"
      unfolding new_locs_def strip_anchors_conv
      by (simp only: update_conv' fun_upd_apply if_False)
    also from locs have "map_of locs k =
        (case map_of old ''locations'' of Some (JObj l) \<Rightarrow> map_of l k | _ \<Rightarrow> None)"
      by auto
    finally show "map_of new_locs k =
        (case map_of old ''locations'' of Some (JObj l) \<Rightarrow> map_of l k | _ \<Rightarrow> None)" .
  qed
  have w': "w = UpdatePosition (pos_uuid row) (JObj new)
                 (max now_ms (pos_timestamp row) + NORMAL_LEAP_MS)"
    using w by (simp only: new_def new_locs_def)
  have 6: "books (commit (Some w) db) = books db" by (simp add: w')
  have 7: "positions (commit (Some w) db) =
             map (\<lambda>x. if pos_uuid x = pos_uuid row
                       then x\<lparr>pos_locator := JsonText (JObj new),
                              pos_timestamp := max now_ms (pos_timestamp row) + NORMAL_LEAP_MS\<rparr>
                       else x) (positions db)"
    by (simp add: w')
  from b row old r w' 1 2 3 4 5 6 7 show ?thesis by blast
qed

theorem update_progress_frame_witness:
  "update_progress like_eq demo_db 50000 ''Dune'' (1 / 2) =
     (True, Some (UpdatePosition ''p1''
        (JObj [(''href'', JStr ''ch3.xhtml''), (''type'', JStr ''application/xhtml+xml''),
               (''locations'', JObj [(''totalProgression'', JNum (1 / 2))])]) 110000))
   \<and> (\<exists>b row new new_locs.
         select_book like_eq demo_db ''Dune'' = Some b
       \<and> select_position demo_db b = Some row
       \<and> UpdatePosition ''p1''
            (JObj [(''href'', JStr ''ch3.xhtml''), (''type'', JStr ''application/xhtml+xml''),
                   (''locations'', JObj [(''totalProgression'', JNum (1 / 2))])]) 110000
          = UpdatePosition (pos_uuid row) (JObj new)
              (max 50000 (pos_timestamp row) + NORMAL_LEAP_MS)
       \<and> map_of new ''locations'' = Some (JObj new_locs)
       \<and> map_of new_locs ''totalProgression'' = Some (JNum (1 / 2))
       \<and> (\<forall>k \<in> set anchor_keys. map_of new_locs k = None))"
proof -
  have a: "update_progress like_eq demo_db 50000 ''Dune'' (1 / 2) =
     (True, Some (UpdatePosition ''p1''
        (JObj [(''href'', JStr ''ch3.xhtml''), (''type'', JStr ''application/xhtml+xml''),
               (''locations'', JObj [(''totalProgression'', JNum (1 / 2))])]) 110000))"
    by code_simp
  from update_progress_frame[OF a] show ?thesis using a by blast
qed

section \<open>Conflict arbiter: idempotence\<close>










section \<open>Transcript aligner: the text window\<close>

declare expand.simps [simp del]

lemma upt_cons_left: "0 \<le> left \<Longrightarrow> nat (left + 1) < right \<Longrightarrow>
   nat left # [nat (left + 1) ..< right] = [nat (left - 1 + 1) ..< right]"
proof -
  assume a: "0 \<le> left" "nat (left + 1) < right"
  then have "nat (left + 1) = Suc (nat left)" by linarith
  moreover from a have "nat (left - 1 + 1) = nat left" by simp
  moreover from a have "nat left < right" by linarith
  ultimately show ?thesis by (simp add: upt_conv_Cons)
qed

lemma expand_run:
  assumes "segments_indices = [nat (left + 1) ..< right]" "- 1 \<le> left"
    "nat (left + 1) < right" "right \<le> length data"
    "current_len = sum_list (map (text_len data) segments_indices)"
  shows "\<exists>lo hi. expand data segments_indices current_len left right = [lo..<hi]
           \<and> lo \<le> nat (left + 1) \<and> right \<le> hi \<and> hi \<le> length data
           \<and> (TARGET_LEN \<le> sum_list (map (text_len data) [lo..<hi])
                \<or> (lo = 0 \<and> hi = length data))"
  using assms
proof (induction data segments_indices current_len left right rule: expand.induct)
  case (1 data idxs cur left right)
  note inv = "1.prems"
  show ?case
  proof (cases "cur < TARGET_LEN")
    case False
    then have "expand data idxs cur left right = idxs" by (subst expand.simps) simp
    with inv False show ?thesis
      by (intro exI[of _ "nat (left + 1)"] exI[of _ right]) simp
  next
    case small: True
    show ?thesis
    proof (cases "0 \<le> left")
      case left: True
      have idxs': "nat left # idxs = [nat (left - 1 + 1) ..< right]"
        using inv(1,3) left by (simp only: upt_cons_left)
      have sum': "cur + text_len data (nat left)
                  = sum_list (map (text_len data) (nat left # idxs))"
        using inv(5) by simp
      show ?thesis
      proof (cases "TARGET_LEN \<le> cur + text_len data (nat left)")
        case True
        with small left have "expand data idxs cur left right = nat left # idxs"
          by (subst expand.simps) simp
        with idxs' sum' True inv left show ?thesis
          by (intro exI[of _ "nat (left - 1 + 1)"] exI[of _ right]) simp
      next
        case notyet: False
        show ?thesis
        proof (cases "right < length data")
          case True
          have e: "expand data idxs cur left right =
                   expand data ((nat left # idxs) @ [right])
                     (cur + text_len data (nat left) + text_len data right) (left - 1) (Suc right)"
            using small left notyet True by (subst expand.simps) simp
          have lt: "nat (left - 1 + 1) < Suc right" using inv(3) left by linarith
          have i1: "(nat left # idxs) @ [right] = [nat (left - 1 + 1) ..< Suc right]"
            using idxs' lt by simp
          have i5: "cur + text_len data (nat left) + text_len data right
                    = sum_list (map (text_len data) ((nat left # idxs) @ [right]))"
            using inv(5) by simp
          from "1.IH"(1)[OF small left notyet True i1 _ lt _ i5] left True
          obtain lo hi where
            "expand data ((nat left # idxs) @ [right])
                     (cur + text_len data (nat left) + text_len data right) (left - 1) (Suc right)
               = [lo..<hi]" "lo \<le> nat (left - 1 + 1)" "Suc right \<le> hi" "hi \<le> length data"
            "TARGET_LEN \<le> sum_list (map (text_len data) [lo..<hi]) \<or> (lo = 0 \<and> hi = length data)"
            by auto
          with e left show ?thesis
            by (intro exI[of _ lo] exI[of _ hi]) simp
        next
          case False
          have e: "expand data idxs cur left right =
                   expand data (nat left # idxs) (cur + text_len data (nat left)) (left - 1) right"
            using small left notyet False by (subst expand.simps) simp
          have lt: "nat (left - 1 + 1) < right" using inv(3) left by linarith
          from "1.IH"(2)[OF small left notyet False idxs' _ lt inv(4) sum'] left
          obtain lo hi where
            "expand data (nat left # idxs) (cur + text_len data (nat left)) (left - 1) right
               = [lo..<hi]" "lo \<le> nat (left - 1 + 1)" "right \<le> hi" "hi \<le> length data"
            "TARGET_LEN \<le> sum_list (map (text_len data) [lo..<hi]) \<or> (lo = 0 \<and> hi = length data)"
            by auto
          with e left show ?thesis
            by (intro exI[of _ lo] exI[of _ hi]) simp
        qed
      qed
    next
      case noleft: False
      with inv(2) have l: "left = - 1" by simp
      show ?thesis
      proof (cases "right < length data")
        case True
        have e: "expand data idxs cur left right =
                 expand data (idxs @ [right]) (cur + text_len data right) left (Suc right)"
          using small noleft True by (subst expand.simps) simp
        have lt: "nat (left + 1) < Suc right" using inv(3) by simp
        have i1: "idxs @ [right] = [nat (left + 1) ..< Suc right]"
          using inv(1,3) by simp
        have i5: "cur + text_len data right = sum_list (map (text_len data) (idxs @ [right]))"
          using inv(5) by simp
        from "1.IH"(3)[OF small noleft True i1 inv(2) lt _ i5] True
        obtain lo hi where
          "expand data (idxs @ [right]) (cur + text_len data right) left (Suc right) = [lo..<hi]"
          "lo \<le> nat (left + 1)" "Suc right \<le> hi" "hi \<le> length data"
          "TARGET_LEN \<le> sum_list (map (text_len data) [lo..<hi]) \<or> (lo = 0 \<and> hi = length data)"
          by auto
        with e show ?thesis
          by (intro exI[of _ lo] exI[of _ hi]) simp
      next
        case False
        with small noleft have "expand data idxs cur left right = idxs"
          by (subst expand.simps) simp
        moreover from False inv(4) have "right = length data" by simp
        ultimately show ?thesis using inv(1) l
          by (intro exI[of _ 0] exI[of _ right]) simp
      qed
    qed
  qed
qed

declare spec_window.simps [simp del]

lemma done_iff:
  "spec_window_done data (lo, hi) \<longleftrightarrow>
     TARGET_LEN \<le> sum_list (map (text_len data) [lo..<hi]) \<or> (lo = 0 \<and> hi = length data)"
  by (simp add: spec_window_done_def)

lemma not_done_upto:
  assumes "\<forall>m < n. \<not> spec_window_done data (spec_window len target m)"
    and "\<not> spec_window_done data (spec_window len target n)"
  shows "\<forall>m < Suc n. \<not> spec_window_done data (spec_window len target m)"
  using assms by (simp add: less_Suc_eq)

lemma expand_alternating:
  assumes "segments_indices = [nat (left + 1) ..< right]" "- 1 \<le> left"
    "nat (left + 1) < right" "right \<le> length data"
    "current_len = sum_list (map (text_len data) segments_indices)"
    "spec_window (length data) target n = (nat (left + 1), right)" "even n"
    "\<forall>m < n. \<not> spec_window_done data (spec_window (length data) target m)"
  shows "\<exists>n' lo hi. expand data segments_indices current_len left right = [lo..<hi]
           \<and> spec_window (length data) target n' = (lo, hi)
           \<and> spec_window_done data (lo, hi)
           \<and> (\<forall>m < n'. \<not> spec_window_done data (spec_window (length data) target m))
           \<and> lo \<le> nat (left + 1) \<and> right \<le> hi \<and> hi \<le> length data"
  using assms
proof (induction data segments_indices current_len left right arbitrary: n rule: expand.induct)
  case (1 data idxs cur left right)
  note inv = "1.prems"
  let ?W = "spec_window (length data) target"
  let ?D = "spec_window_done data"
  have cur_here: "sum_list (map (text_len data) [nat (left + 1) ..< right]) = cur"
    using inv(1,5) by simp
  show ?case
  proof (cases "cur < TARGET_LEN")
    case False
    then have e: "expand data idxs cur left right = idxs" by (subst expand.simps) simp
    have "?D (nat (left + 1), right)" using False cur_here by (simp add: done_iff)
    with e inv show ?thesis
      by (intro exI[of _ n] exI[of _ "nat (left + 1)"] exI[of _ right]) simp
  next
    case small: True
    show ?thesis
    proof (cases "0 \<le> left")
      case left: True
      have lpos: "nat (left + 1) = Suc (nat left)" using left by linarith
      have l': "nat (left - 1 + 1) = nat left" using left by simp
      have idxs': "nat left # idxs = [nat (left - 1 + 1) ..< right]"
        using inv(1,3) left by (simp only: upt_cons_left)
      have sum': "cur + text_len data (nat left)
                  = sum_list (map (text_len data) (nat left # idxs))"
        using inv(5) by simp
      have cur1: "sum_list (map (text_len data) [nat left ..< right])
                  = cur + text_len data (nat left)"
        using sum' idxs' l' by simp
      have nd0: "\<not> ?D (?W n)" using small cur_here lpos by (simp add: inv(6) done_iff)
      have W1: "?W (Suc n) = (nat left, right)" using inv(6,7) lpos by (simp add: spec_window.simps)
      note upto1 = not_done_upto[OF inv(8) nd0]
      show ?thesis
      proof (cases "TARGET_LEN \<le> cur + text_len data (nat left)")
        case True
        with small left have e: "expand data idxs cur left right = [nat left ..< right]"
          using idxs' l' by (subst expand.simps) simp
        have "?D (nat left, right)" using True cur1 by (simp add: done_iff)
        with e W1 upto1 inv(4) lpos show ?thesis
          by (intro exI[of _ "Suc n"] exI[of _ "nat left"] exI[of _ right]) simp
      next
        case notyet: False
        show ?thesis
        proof (cases "right < length data")
          case True
          have e: "expand data idxs cur left right =
                   expand data ((nat left # idxs) @ [right])
                     (cur + text_len data (nat left) + text_len data right) (left - 1) (Suc right)"
            using small left notyet True by (subst expand.simps) simp
          have lt: "nat (left - 1 + 1) < Suc right" using inv(3) left by linarith
          have i1: "(nat left # idxs) @ [right] = [nat (left - 1 + 1) ..< Suc right]"
            using idxs' lt by simp
          have i2: "- 1 \<le> left - 1" using left by simp
          have i4: "Suc right \<le> length data" using True by simp
          have i5: "cur + text_len data (nat left) + text_len data right
                    = sum_list (map (text_len data) ((nat left # idxs) @ [right]))"
            using inv(5) by simp
          have nd1: "\<not> ?D (?W (Suc n))" using notyet cur1 True by (simp add: W1 done_iff)
          have W2: "?W (Suc (Suc n)) = (nat (left - 1 + 1), Suc right)"
            using W1 inv(7) True l' by (simp add: spec_window.simps)
          have ev: "even (Suc (Suc n))" using inv(7) by simp
          note upto2 = not_done_upto[OF upto1 nd1]
          from "1.IH"(1)[OF small left notyet True i1 i2 lt i4 i5 W2 ev upto2]
          obtain n' lo hi where r:
            "expand data ((nat left # idxs) @ [right])
                     (cur + text_len data (nat left) + text_len data right) (left - 1) (Suc right)
               = [lo..<hi]" "?W n' = (lo, hi)" "?D (lo, hi)" "\<forall>m < n'. \<not> ?D (?W m)"
            "lo \<le> nat (left - 1 + 1)" "Suc right \<le> hi" "hi \<le> length data"
            by blast
          from r e l' lpos show ?thesis
            by (intro exI[of _ n'] exI[of _ lo] exI[of _ hi]) simp
        next
          case noright: False
          with inv(4) have rlen: "right = length data" by simp
          have e: "expand data idxs cur left right =
                   expand data (nat left # idxs) (cur + text_len data (nat left)) (left - 1) right"
            using small left notyet noright by (subst expand.simps) simp
          show ?thesis
          proof (cases "left = 0")
            case True
            have "expand data (nat left # idxs) (cur + text_len data (nat left)) (left - 1) right
                    = nat left # idxs"
              using notyet noright True by (subst expand.simps) simp
            with e idxs' l' have e': "expand data idxs cur left right = [nat left ..< right]"
              by simp
            have "?D (nat left, right)" using True rlen by (simp add: done_iff)
            with e' W1 upto1 inv(4) lpos show ?thesis
              by (intro exI[of _ "Suc n"] exI[of _ "nat left"] exI[of _ right]) simp
          next
            case False
            with left have lp: "0 < nat left" by simp
            have lt: "nat (left - 1 + 1) < right" using inv(3) left by linarith
            have i2: "- 1 \<le> left - 1" using left by simp
            have nd1: "\<not> ?D (?W (Suc n))" using notyet cur1 lp by (simp add: W1 done_iff)
            have W2: "?W (Suc (Suc n)) = (nat (left - 1 + 1), right)"
              using W1 inv(7) noright l' by (simp add: spec_window.simps)
            have ev: "even (Suc (Suc n))" using inv(7) by simp
            note upto2 = not_done_upto[OF upto1 nd1]
            from "1.IH"(2)[OF small left notyet noright idxs' i2 lt inv(4) sum' W2 ev upto2]
            obtain n' lo hi where r:
              "expand data (nat left # idxs) (cur + text_len data (nat left)) (left - 1) right
                 = [lo..<hi]" "?W n' = (lo, hi)" "?D (lo, hi)" "\<forall>m < n'. \<not> ?D (?W m)"
              "lo \<le> nat (left - 1 + 1)" "right \<le> hi" "hi \<le> length data"
              by blast
            from r e l' lpos show ?thesis
              by (intro exI[of _ n'] exI[of _ lo] exI[of _ hi]) simp
          qed
        qed
      qed
    next
      case noleft: False
      with inv(2) have l: "left = - 1" by simp
      then have l0: "nat (left + 1) = 0" by simp
      show ?thesis
      proof (cases "right < length data")
        case True
        have e: "expand data idxs cur left right =
                 expand data (idxs @ [right]) (cur + text_len data right) left (Suc right)"
          using small noleft True by (subst expand.simps) simp
        have lt: "nat (left + 1) < Suc right" using inv(3) by simp
        have i1: "idxs @ [right] = [nat (left + 1) ..< Suc right]"
          using inv(1,3) by simp
        have i4: "Suc right \<le> length data" using True by simp
        have i5: "cur + text_len data right = sum_list (map (text_len data) (idxs @ [right]))"
          using inv(5) by simp
        have nd0: "\<not> ?D (?W n)" using small cur_here True by (simp add: inv(6) done_iff)
        have W1: "?W (Suc n) = (nat (left + 1), right)" using inv(6,7) l0 by (simp add: spec_window.simps)
        have nd1: "\<not> ?D (?W (Suc n))" using nd0 by (simp add: W1 inv(6))
        have W2: "?W (Suc (Suc n)) = (nat (left + 1), Suc right)"
          using W1 inv(7) True by (simp add: spec_window.simps)
        have ev: "even (Suc (Suc n))" using inv(7) by simp
        note upto2 = not_done_upto[OF not_done_upto[OF inv(8) nd0] nd1]
        from "1.IH"(3)[OF small noleft True i1 inv(2) lt i4 i5 W2 ev upto2]
        obtain n' lo hi where r:
          "expand data (idxs @ [right]) (cur + text_len data right) left (Suc right) = [lo..<hi]"
          "?W n' = (lo, hi)" "?D (lo, hi)" "\<forall>m < n'. \<not> ?D (?W m)"
          "lo \<le> nat (left + 1)" "Suc right \<le> hi" "hi \<le> length data"
          by blast
        from r e show ?thesis
          by (intro exI[of _ n'] exI[of _ lo] exI[of _ hi]) simp
      next
        case False
        with small noleft have e: "expand data idxs cur left right = idxs"
          by (subst expand.simps) simp
        from False inv(4) have rlen: "right = length data" by simp
        have "?D (nat (left + 1), right)" using l0 rlen by (simp add: done_iff)
        with e inv show ?thesis
          by (intro exI[of _ n] exI[of _ "nat (left + 1)"] exI[of _ right]) simp
      qed
    qed
  qed
qed

lemma containing_idx_Some:
  "containing_idx segs t i = Some k \<Longrightarrow>
     i \<le> k \<and> k - i < length segs
     \<and> contains_ts (segs ! (k - i)) t
     \<and> (\<forall>j < k - i. \<not> (contains_ts (segs ! j) t))"
proof (induction segs arbitrary: i)
  case Nil
  then show ?case by simp
next
  case (Cons seg segs)
  show ?case
  proof (cases "contains_ts seg t")
    case True
    with Cons.prems have "k = i" by simp
    with True show ?thesis by simp
  next
    case False
    with Cons.prems have "containing_idx segs t (Suc i) = Some k" by simp
    from Cons.IH[OF this] have ih: "Suc i \<le> k" "k - Suc i < length segs"
      "contains_ts (segs ! (k - Suc i)) t"
      "\<forall>j < k - Suc i. \<not> (contains_ts (segs ! j) t)"
      by simp_all
    from ih(1) have ki: "k - i = Suc (k - Suc i)" by simp
    have "\<forall>j < k - i. \<not> (contains_ts ((seg # segs) ! j) t)"
    proof (intro allI impI)
      fix j assume "j < k - i"
      then show "\<not> (contains_ts ((seg # segs) ! j) t)"
        using False ih(4) ki by (cases j) auto
    qed
    with ih ki show ?thesis by simp
  qed
qed

lemma containing_idx_None:
  "containing_idx segs t i = None \<Longrightarrow>
     \<forall>s \<in> set segs. \<not> (contains_ts s t)"
  by (induction segs arbitrary: i) (auto split: if_splits)

lemma closest_idx_acc:
  "\<exists>k. closest_idx segs t i (Some d) (Some g) = Some k
     \<and> ((k = g \<and> (\<forall>s \<in> set segs. d \<le> boundary_dist s t))
        \<or> (i \<le> k \<and> k - i < length segs
            \<and> boundary_dist (segs ! (k - i)) t < d
            \<and> (\<forall>s \<in> set segs. boundary_dist (segs ! (k - i)) t
                  \<le> boundary_dist s t)))"
proof (induction segs arbitrary: i d g)
  case Nil
  then show ?case by simp
next
  case (Cons seg segs)
  define ds where "ds = boundary_dist seg t"
  show ?case
  proof (cases "ds < d")
    case True
    then have e: "closest_idx (seg # segs) t i (Some d) (Some g)
               = closest_idx segs t (Suc i) (Some ds) (Some i)"
      by (simp add: ds_def Let_def)
    from Cons.IH[of "Suc i" ds i] obtain k where
      k: "closest_idx segs t (Suc i) (Some ds) (Some i) = Some k"
      and alt: "(k = i \<and> (\<forall>s \<in> set segs. ds \<le> boundary_dist s t))
        \<or> (Suc i \<le> k \<and> k - Suc i < length segs
            \<and> boundary_dist (segs ! (k - Suc i)) t < ds
            \<and> (\<forall>s \<in> set segs. boundary_dist (segs ! (k - Suc i)) t
                  \<le> boundary_dist s t))"
      by blast
    from alt show ?thesis
    proof
      assume a: "k = i \<and> (\<forall>s \<in> set segs. ds \<le> boundary_dist s t)"
      with True e k show ?thesis
        by (intro exI[of _ k]) (simp add: ds_def)
    next
      assume a: "Suc i \<le> k \<and> k - Suc i < length segs
            \<and> boundary_dist (segs ! (k - Suc i)) t < ds
            \<and> (\<forall>s \<in> set segs. boundary_dist (segs ! (k - Suc i)) t
                  \<le> boundary_dist s t)"
      then have "Suc i \<le> k" by blast
      then have ki: "k - i = Suc (k - Suc i)" by arith
      from a True e k show ?thesis
        by (intro exI[of _ k]) (simp add: ki ds_def)
    qed
  next
    case False
    then have e: "closest_idx (seg # segs) t i (Some d) (Some g)
               = closest_idx segs t (Suc i) (Some d) (Some g)"
      by (simp add: ds_def Let_def)
    from Cons.IH[of "Suc i" d g] obtain k where
      k: "closest_idx segs t (Suc i) (Some d) (Some g) = Some k"
      and alt: "(k = g \<and> (\<forall>s \<in> set segs. d \<le> boundary_dist s t))
        \<or> (Suc i \<le> k \<and> k - Suc i < length segs
            \<and> boundary_dist (segs ! (k - Suc i)) t < d
            \<and> (\<forall>s \<in> set segs. boundary_dist (segs ! (k - Suc i)) t
                  \<le> boundary_dist s t))"
      by blast
    from alt show ?thesis
    proof
      assume a: "k = g \<and> (\<forall>s \<in> set segs. d \<le> boundary_dist s t)"
      with False e k show ?thesis
        by (intro exI[of _ k]) (simp add: ds_def)
    next
      assume a: "Suc i \<le> k \<and> k - Suc i < length segs
            \<and> boundary_dist (segs ! (k - Suc i)) t < d
            \<and> (\<forall>s \<in> set segs. boundary_dist (segs ! (k - Suc i)) t
                  \<le> boundary_dist s t)"
      then have "Suc i \<le> k" by blast
      then have ki: "k - i = Suc (k - Suc i)" by arith
      from a False e k show ?thesis
        by (intro exI[of _ k]) (simp add: ki ds_def)
    qed
  qed
qed

lemma find_target_spec:
  assumes "data \<noteq> []"
  shows "\<exists>k. find_target data t = Some k \<and> k < length data
          \<and> ((\<exists>s \<in> set data. contains_ts s t) \<longrightarrow>
                contains_ts (data ! k) t \<and> (\<forall>j < k. \<not> contains_ts (data ! j) t))
          \<and> ((\<forall>s \<in> set data. \<not> contains_ts s t) \<longrightarrow>
                (\<forall>s \<in> set data. boundary_dist (data ! k) t \<le> boundary_dist s t))"
proof (cases "containing_idx data t 0")
  case (Some k)
  from containing_idx_Some[OF Some] have "k < length data" "contains_ts (data ! k) t"
    "\<forall>j < k. \<not> contains_ts (data ! j) t" by simp_all
  moreover from \<open>k < length data\<close> \<open>contains_ts (data ! k) t\<close>
  have "\<not> (\<forall>s \<in> set data. \<not> contains_ts s t)" using nth_mem by blast
  moreover have "find_target data t = Some k" by (simp add: find_target_def Some)
  ultimately show ?thesis by blast
next
  case None
  from containing_idx_None[OF None] have no: "\<forall>s \<in> set data. \<not> contains_ts s t" .
  from assms obtain seg segs where d: "data = seg # segs" by (cases data) auto
  have "find_target data t = closest_idx data t 0 None None"
    by (simp add: find_target_def None)
  then have e: "find_target data t = closest_idx segs t (Suc 0) (Some (boundary_dist seg t)) (Some 0)"
    by (simp add: d Let_def)
  from closest_idx_acc[of segs t "Suc 0" "boundary_dist seg t" 0] obtain k where
    k: "closest_idx segs t (Suc 0) (Some (boundary_dist seg t)) (Some 0) = Some k"
    and alt: "(k = 0 \<and> (\<forall>s \<in> set segs. boundary_dist seg t \<le> boundary_dist s t))
        \<or> (Suc 0 \<le> k \<and> k - Suc 0 < length segs
            \<and> boundary_dist (segs ! (k - Suc 0)) t < boundary_dist seg t
            \<and> (\<forall>s \<in> set segs. boundary_dist (segs ! (k - Suc 0)) t \<le> boundary_dist s t))"
    by blast
  from alt have "k < length data \<and> (\<forall>s \<in> set data. boundary_dist (data ! k) t \<le> boundary_dist s t)"
  proof
    assume "k = 0 \<and> (\<forall>s \<in> set segs. boundary_dist seg t \<le> boundary_dist s t)"
    then show ?thesis by (simp add: d)
  next
    assume a: "Suc 0 \<le> k \<and> k - Suc 0 < length segs
            \<and> boundary_dist (segs ! (k - Suc 0)) t < boundary_dist seg t
            \<and> (\<forall>s \<in> set segs. boundary_dist (segs ! (k - Suc 0)) t \<le> boundary_dist s t)"
    then obtain k' where k': "k = Suc k'" by (cases k) auto
    with a show ?thesis by (simp add: d)
  qed
  with e k no show ?thesis by auto
qed

lemma closest_idx_first:
  "\<exists>k. closest_idx segs t i (Some d) (Some g) = Some k
     \<and> ((k = g \<and> (\<forall>s \<in> set segs. d \<le> boundary_dist s t))
        \<or> (i \<le> k \<and> k - i < length segs
            \<and> boundary_dist (segs ! (k - i)) t < d
            \<and> (\<forall>s \<in> set segs. boundary_dist (segs ! (k - i)) t \<le> boundary_dist s t)
            \<and> (\<forall>j < k - i. boundary_dist (segs ! (k - i)) t < boundary_dist (segs ! j) t)))"
proof (induction segs arbitrary: i d g)
  case Nil
  then show ?case by simp
next
  case (Cons seg segs)
  define ds where "ds = boundary_dist seg t"
  show ?case
  proof (cases "ds < d")
    case True
    then have e: "closest_idx (seg # segs) t i (Some d) (Some g)
               = closest_idx segs t (Suc i) (Some ds) (Some i)"
      by (simp add: ds_def Let_def)
    from Cons.IH[of "Suc i" ds i] obtain k where
      k: "closest_idx segs t (Suc i) (Some ds) (Some i) = Some k"
      and alt: "(k = i \<and> (\<forall>s \<in> set segs. ds \<le> boundary_dist s t))
        \<or> (Suc i \<le> k \<and> k - Suc i < length segs
            \<and> boundary_dist (segs ! (k - Suc i)) t < ds
            \<and> (\<forall>s \<in> set segs. boundary_dist (segs ! (k - Suc i)) t \<le> boundary_dist s t)
            \<and> (\<forall>j < k - Suc i. boundary_dist (segs ! (k - Suc i)) t < boundary_dist (segs ! j) t))"
      by blast
    from alt show ?thesis
    proof
      assume a: "k = i \<and> (\<forall>s \<in> set segs. ds \<le> boundary_dist s t)"
      with True e k show ?thesis
        by (intro exI[of _ k]) (simp add: ds_def)
    next
      assume a: "Suc i \<le> k \<and> k - Suc i < length segs
            \<and> boundary_dist (segs ! (k - Suc i)) t < ds
            \<and> (\<forall>s \<in> set segs. boundary_dist (segs ! (k - Suc i)) t \<le> boundary_dist s t)
            \<and> (\<forall>j < k - Suc i. boundary_dist (segs ! (k - Suc i)) t < boundary_dist (segs ! j) t)"
      then have "Suc i \<le> k" by blast
      then have ki: "k - i = Suc (k - Suc i)" by arith
      have before: "\<forall>j < k - i. boundary_dist ((seg # segs) ! (k - i)) t
                       < boundary_dist ((seg # segs) ! j) t"
      proof (intro allI impI)
        fix j assume "j < k - i"
        then show "boundary_dist ((seg # segs) ! (k - i)) t < boundary_dist ((seg # segs) ! j) t"
          using a ki by (cases j) (auto simp: ds_def)
      qed
      from a True e k before show ?thesis
        by (intro exI[of _ k]) (simp add: ki ds_def)
    qed
  next
    case False
    then have e: "closest_idx (seg # segs) t i (Some d) (Some g)
               = closest_idx segs t (Suc i) (Some d) (Some g)"
      by (simp add: ds_def Let_def)
    from Cons.IH[of "Suc i" d g] obtain k where
      k: "closest_idx segs t (Suc i) (Some d) (Some g) = Some k"
      and alt: "(k = g \<and> (\<forall>s \<in> set segs. d \<le> boundary_dist s t))
        \<or> (Suc i \<le> k \<and> k - Suc i < length segs
            \<and> boundary_dist (segs ! (k - Suc i)) t < d
            \<and> (\<forall>s \<in> set segs. boundary_dist (segs ! (k - Suc i)) t \<le> boundary_dist s t)
            \<and> (\<forall>j < k - Suc i. boundary_dist (segs ! (k - Suc i)) t < boundary_dist (segs ! j) t))"
      by blast
    from alt show ?thesis
    proof
      assume a: "k = g \<and> (\<forall>s \<in> set segs. d \<le> boundary_dist s t)"
      with False e k show ?thesis
        by (intro exI[of _ k]) (simp add: ds_def)
    next
      assume a: "Suc i \<le> k \<and> k - Suc i < length segs
            \<and> boundary_dist (segs ! (k - Suc i)) t < d
            \<and> (\<forall>s \<in> set segs. boundary_dist (segs ! (k - Suc i)) t \<le> boundary_dist s t)
            \<and> (\<forall>j < k - Suc i. boundary_dist (segs ! (k - Suc i)) t < boundary_dist (segs ! j) t)"
      then have "Suc i \<le> k" by blast
      then have ki: "k - i = Suc (k - Suc i)" by arith
      have before: "\<forall>j < k - i. boundary_dist ((seg # segs) ! (k - i)) t
                       < boundary_dist ((seg # segs) ! j) t"
      proof (intro allI impI)
        fix j assume "j < k - i"
        then show "boundary_dist ((seg # segs) ! (k - i)) t < boundary_dist ((seg # segs) ! j) t"
          using a ki False by (cases j) (auto simp: ds_def)
      qed
      from a False e k before show ?thesis
        by (intro exI[of _ k]) (simp add: ki ds_def)
    qed
  qed
qed

lemma find_target_first_closest:
  assumes "data \<noteq> []" "\<forall>s \<in> set data. \<not> contains_ts s t"
  shows "\<exists>k. find_target data t = Some k \<and> k < length data
          \<and> (\<forall>j < k. boundary_dist (data ! k) t < boundary_dist (data ! j) t)"
proof -
  have none: "containing_idx data t 0 = None"
  proof (cases "containing_idx data t 0")
    case (Some k)
    from containing_idx_Some[OF Some] have "k < length data" "contains_ts (data ! k) t" by simp_all
    with assms(2) show ?thesis using nth_mem by blast
  qed simp
  from assms(1) obtain seg segs where d: "data = seg # segs" by (cases data) auto
  have "find_target data t = closest_idx data t 0 None None"
    by (simp add: find_target_def none)
  then have e: "find_target data t = closest_idx segs t (Suc 0) (Some (boundary_dist seg t)) (Some 0)"
    by (simp add: d Let_def)
  from closest_idx_first[of segs t "Suc 0" "boundary_dist seg t" 0] obtain k where
    k: "closest_idx segs t (Suc 0) (Some (boundary_dist seg t)) (Some 0) = Some k"
    and alt: "(k = 0 \<and> (\<forall>s \<in> set segs. boundary_dist seg t \<le> boundary_dist s t))
        \<or> (Suc 0 \<le> k \<and> k - Suc 0 < length segs
            \<and> boundary_dist (segs ! (k - Suc 0)) t < boundary_dist seg t
            \<and> (\<forall>s \<in> set segs. boundary_dist (segs ! (k - Suc 0)) t \<le> boundary_dist s t)
            \<and> (\<forall>j < k - Suc 0. boundary_dist (segs ! (k - Suc 0)) t < boundary_dist (segs ! j) t))"
    by blast
  from alt have "k < length data \<and> (\<forall>j < k. boundary_dist (data ! k) t < boundary_dist (data ! j) t)"
  proof
    assume "k = 0 \<and> (\<forall>s \<in> set segs. boundary_dist seg t \<le> boundary_dist s t)"
    then show ?thesis by (simp add: d)
  next
    assume a: "Suc 0 \<le> k \<and> k - Suc 0 < length segs
            \<and> boundary_dist (segs ! (k - Suc 0)) t < boundary_dist seg t
            \<and> (\<forall>s \<in> set segs. boundary_dist (segs ! (k - Suc 0)) t \<le> boundary_dist s t)
            \<and> (\<forall>j < k - Suc 0. boundary_dist (segs ! (k - Suc 0)) t < boundary_dist (segs ! j) t)"
    then obtain k' where k': "k = Suc k'" by (cases k) auto
    have "\<forall>j < k. boundary_dist (data ! k) t < boundary_dist (data ! j) t"
    proof (intro allI impI)
      fix j assume "j < k"
      then show "boundary_dist (data ! k) t < boundary_dist (data ! j) t"
        using a k' by (cases j) (auto simp: d)
    qed
    with a k' show ?thesis by (simp add: d)
  qed
  with e k show ?thesis by auto
qed

lemma length_join_sp: "length (join_sp xs) = sum_list (map length xs) + (length xs - 1)"
  by (induction xs rule: join_sp.induct) simp_all

lemma run_whole:
  "map (\<lambda>i. seg_text (data ! i)) [0..<length data] = map seg_text data"
proof -
  have "map seg_text data = map seg_text (map ((!) data) [0..<length data])"
    by (simp only: map_nth)
  also have "\<dots> = map (\<lambda>i. seg_text (data ! i)) [0..<length data]"
    by (simp only: map_map o_def)
  finally show ?thesis by (rule sym)
qed

lemma run_text_length:
  "sum_list (map (text_len data) ixs) \<le> length (join_sp (map (\<lambda>i. seg_text (data ! i)) ixs))"
proof -
  have "text_len data = (\<lambda>i. length (seg_text (data ! i)))"
    by (rule ext) (simp add: text_len_def)
  then show ?thesis by (simp only: length_join_sp map_map o_def)
qed

lemma whole_text_length:
  "sum_list (map (\<lambda>s. length (seg_text s)) data) \<le> length (join_sp (map seg_text data))"
  by (simp add: length_join_sp o_def)

lemma some_text_positive:
  assumes "s \<in> set data" "seg_text s \<noteq> []"
  shows "0 < sum_list (map (\<lambda>s. length (seg_text s)) data)"
proof -
  from assms(1) have "length (seg_text s) \<in> set (map (\<lambda>s. length (seg_text s)) data)" by auto
  then have "length (seg_text s) \<le> sum_list (map (\<lambda>s. length (seg_text s)) data)"
    by (rule member_le_sum_list) simp
  with assms(2) show ?thesis by (cases "seg_text s") auto
qed

text \<open>
  C7 (as amended). For every transcript with at least one segment and every
  timestamp, \<open>get_text_at_time\<close> returns the texts of a contiguous run of segments
  \<open>lo, ..., hi - 1\<close> around the target, joined by single spaces in transcript
  order. The target is the first segment containing the timestamp or, when none
  contains it, the first of the segments whose nearer boundary is closest to it.
  The run is the window of the specification, \<open>spec_window\<close>, after the least
  number of alternating extensions (prepend the previous segment, append the
  next, an exhausted side changing nothing) at which the text length reaches
  \<open>TARGET_LEN\<close> (400) or the window is the whole transcript. The text has at least
  \<open>TARGET_LEN\<close> characters whenever the texts of the whole transcript have that
  many, and it is non-empty whenever some segment has a non-empty text.
\<close>

theorem get_text_at_time_window:
  assumes "data \<noteq> []"
  shows "\<exists>target lo hi res n.
           find_target data t = Some target \<and> lo \<le> target \<and> target < hi \<and> hi \<le> length data
         \<and> ((\<exists>s \<in> set data. contains_ts s t) \<longrightarrow>
               contains_ts (data ! target) t \<and> (\<forall>j < target. \<not> contains_ts (data ! j) t))
         \<and> ((\<forall>s \<in> set data. \<not> contains_ts s t) \<longrightarrow>
               (\<forall>s \<in> set data. boundary_dist (data ! target) t \<le> boundary_dist s t)
             \<and> (\<forall>j < target. boundary_dist (data ! target) t < boundary_dist (data ! j) t))
         \<and> spec_window (length data) target n = (lo, hi)
         \<and> spec_window_done data (lo, hi)
         \<and> (\<forall>m < n. \<not> spec_window_done data (spec_window (length data) target m))
         \<and> get_text_at_time (SegmentList data) t = Some res
         \<and> res = join_sp (map (\<lambda>i. seg_text (data ! i)) [lo..<hi])
         \<and> (TARGET_LEN \<le> sum_list (map (\<lambda>s. length (seg_text s)) data) \<longrightarrow>
               TARGET_LEN \<le> length res)
         \<and> ((\<exists>s \<in> set data. seg_text s \<noteq> []) \<longrightarrow> res \<noteq> [])"
proof -
  from find_target_spec[OF assms, of t] obtain k where
    k: "find_target data t = Some k" and kl: "k < length data"
    and c1: "(\<exists>s \<in> set data. contains_ts s t) \<longrightarrow>
                contains_ts (data ! k) t \<and> (\<forall>j < k. \<not> contains_ts (data ! j) t)"
    and c2: "(\<forall>s \<in> set data. \<not> contains_ts s t) \<longrightarrow>
                (\<forall>s \<in> set data. boundary_dist (data ! k) t \<le> boundary_dist s t)"
    by blast
  have c3: "(\<forall>s \<in> set data. \<not> contains_ts s t) \<longrightarrow>
                (\<forall>j < k. boundary_dist (data ! k) t < boundary_dist (data ! j) t)"
  proof
    assume "\<forall>s \<in> set data. \<not> contains_ts s t"
    from find_target_first_closest[OF assms this] k
    show "\<forall>j < k. boundary_dist (data ! k) t < boundary_dist (data ! j) t" by auto
  qed
  have i1: "[k] = [nat (int k - 1 + 1) ..< Suc k]" by simp
  have i2: "- 1 \<le> int k - 1" by simp
  have i3: "nat (int k - 1 + 1) < Suc k" by simp
  have i4: "Suc k \<le> length data" using kl by simp
  have i5: "text_len data k = sum_list (map (text_len data) [k])" by simp
  have i6: "spec_window (length data) k 0 = (nat (int k - 1 + 1), Suc k)"
    by (simp add: spec_window.simps)
  have i7: "even (0 :: nat)" by simp
  have i8: "\<forall>m < (0 :: nat). \<not> spec_window_done data (spec_window (length data) k m)" by simp
  note run = expand_alternating[OF i1 i2 i3 i4 i5 i6 i7 i8]
  from run obtain n lo hi where
    e: "expand data [k] (text_len data k) (int k - 1) (Suc k) = [lo..<hi]"
    and w: "spec_window (length data) k n = (lo, hi)"
    and dn: "spec_window_done data (lo, hi)"
    and first: "\<forall>m < n. \<not> spec_window_done data (spec_window (length data) k m)"
    and lo: "lo \<le> k" and hi: "Suc k \<le> hi" "hi \<le> length data"
    by auto
  from dn have alt: "TARGET_LEN \<le> sum_list (map (text_len data) [lo..<hi])
                \<or> (lo = 0 \<and> hi = length data)"
    by (simp add: done_iff)
  define res where "res = join_sp (map (\<lambda>i. seg_text (data ! i)) [lo..<hi])"
  have g: "get_text_at_time (SegmentList data) t = Some res"
    by (simp add: k e res_def)
  have pos: "0 < TARGET_LEN" by (simp add: TARGET_LEN_def)
  have len: "TARGET_LEN \<le> sum_list (map (\<lambda>s. length (seg_text s)) data) \<longrightarrow>
               TARGET_LEN \<le> length res"
    and ne: "(\<exists>s \<in> set data. seg_text s \<noteq> []) \<longrightarrow> res \<noteq> []"
  proof -
    from alt show "TARGET_LEN \<le> sum_list (map (\<lambda>s. length (seg_text s)) data) \<longrightarrow>
               TARGET_LEN \<le> length res"
    proof
      assume "TARGET_LEN \<le> sum_list (map (text_len data) [lo..<hi])"
      with run_text_length[of data "[lo..<hi]"] have "TARGET_LEN \<le> length res"
        unfolding res_def by linarith
      then show ?thesis by simp
    next
      assume "lo = 0 \<and> hi = length data"
      then have "res = join_sp (map seg_text data)" by (simp add: res_def run_whole)
      with whole_text_length[of data] show ?thesis by simp
    qed
    from alt show "(\<exists>s \<in> set data. seg_text s \<noteq> []) \<longrightarrow> res \<noteq> []"
    proof
      assume "TARGET_LEN \<le> sum_list (map (text_len data) [lo..<hi])"
      with run_text_length[of data "[lo..<hi]"] pos have "0 < length res"
        unfolding res_def by linarith
      then show ?thesis by simp
    next
      assume "lo = 0 \<and> hi = length data"
      then have w: "res = join_sp (map seg_text data)" by (simp add: res_def run_whole)
      show ?thesis
      proof
        assume "\<exists>s \<in> set data. seg_text s \<noteq> []"
        then obtain s where "s \<in> set data" "seg_text s \<noteq> []" by blast
        from some_text_positive[OF this] whole_text_length[of data]
        have "0 < length res" unfolding w by linarith
        then show "res \<noteq> []" by simp
      qed
    qed
  qed
  from hi(1) have kh: "k < hi" by simp
  from c2 c3 have c23: "(\<forall>s \<in> set data. \<not> contains_ts s t) \<longrightarrow>
               (\<forall>s \<in> set data. boundary_dist (data ! k) t \<le> boundary_dist s t)
             \<and> (\<forall>j < k. boundary_dist (data ! k) t < boundary_dist (data ! j) t)"
    by blast
  from k lo kh hi(2) c1 c23 w dn first g res_def len ne show ?thesis by blast
qed

theorem get_text_at_time_window_witness:
  "long_transcript \<noteq> []
   \<and> (\<exists>s \<in> set long_transcript. contains_ts s 15)
   \<and> TARGET_LEN \<le> sum_list (map (\<lambda>s. length (seg_text s)) long_transcript)
   \<and> (\<exists>s \<in> set long_transcript. seg_text s \<noteq> [])
   \<and> (\<exists>res. get_text_at_time (SegmentList long_transcript) 15 = Some res
          \<and> TARGET_LEN \<le> length res \<and> res \<noteq> [])
   \<and> get_text_at_time (SegmentList long_transcript) 15 =
        Some (replicate 250 (CHR ''a'') @ '' '' @ replicate 250 (CHR ''b''))
   \<and> spec_window (length long_transcript) 1 1 = (0, 2)
   \<and> (\<exists>target lo hi n. find_target long_transcript 15 = Some target
          \<and> spec_window (length long_transcript) target n = (lo, hi)
          \<and> spec_window_done long_transcript (lo, hi))
   \<and> short_transcript \<noteq> []
   \<and> get_text_at_time (SegmentList short_transcript) (12 / 5) = Some ''ab cd ef''
   \<and> (\<exists>target lo hi. find_target short_transcript (12 / 5) = Some target
          \<and> lo \<le> target \<and> target < hi \<and> hi \<le> length short_transcript
          \<and> boundary_dist (short_transcript ! target) (12 / 5)
               \<le> boundary_dist (short_transcript ! 2) (12 / 5))"
proof -
  have l1: "long_transcript \<noteq> []" by (simp add: long_transcript_def)
  have l2: "\<exists>s \<in> set long_transcript. contains_ts s 15"
    by (simp add: long_transcript_def contains_ts_def)
  have l3: "TARGET_LEN \<le> sum_list (map (\<lambda>s. length (seg_text s)) long_transcript)"
    by (simp add: long_transcript_def TARGET_LEN_def)
  have l4: "\<exists>s \<in> set long_transcript. seg_text s \<noteq> []"
    by (simp add: long_transcript_def)
  have l5: "get_text_at_time (SegmentList long_transcript) 15 =
        Some (replicate 250 (CHR ''a'') @ '' '' @ replicate 250 (CHR ''b''))"
    by code_simp
  have l6: "spec_window (length long_transcript) 1 1 = (0, 2)" by code_simp
  have s1: "short_transcript \<noteq> []" by (simp add: short_transcript_def)
  have s2: "\<forall>s \<in> set short_transcript. \<not> contains_ts s (12 / 5)"
    by (simp add: short_transcript_def contains_ts_def)
  have s3: "get_text_at_time (SegmentList short_transcript) (12 / 5) = Some ''ab cd ef''"
    by code_simp
  have s4: "short_transcript ! 2 \<in> set short_transcript" by (simp add: short_transcript_def)
  from get_text_at_time_window[OF l1, of 15] l2 l3 l4
  have a: "\<exists>res. get_text_at_time (SegmentList long_transcript) 15 = Some res
          \<and> TARGET_LEN \<le> length res \<and> res \<noteq> []"
    by blast
  from get_text_at_time_window[OF l1, of 15]
  have a2: "\<exists>target lo hi n. find_target long_transcript 15 = Some target
          \<and> spec_window (length long_transcript) target n = (lo, hi)
          \<and> spec_window_done long_transcript (lo, hi)"
    by blast
  from get_text_at_time_window[OF s1, of "12 / 5"] s2 s4
  have b: "\<exists>target lo hi. find_target short_transcript (12 / 5) = Some target
          \<and> lo \<le> target \<and> target < hi \<and> hi \<le> length short_transcript
          \<and> boundary_dist (short_transcript ! target) (12 / 5)
               \<le> boundary_dist (short_transcript ! 2) (12 / 5)"
    by blast
  from l1 l2 l3 l4 a l5 l6 a2 s1 s3 b show ?thesis by blast
qed

theorem get_text_at_time_empty_counterexample:
  "(0 :: real) \<le> 0 \<and> (0 :: real) \<le> get_transcript_duration (SegmentList silent_transcript)
   \<and> get_text_at_time (SegmentList silent_transcript) 0 = Some []
   \<and> get_text_at_time (SegmentList []) 0 = None"
  by (simp add: silent_transcript_def find_target_def contains_ts_def expand.simps
        text_len_def TARGET_LEN_def)

section \<open>Transcript aligner: the time of a text\<close>

lemma extractOne_from_None: "extractOne_from scorer i q cs = None \<longleftrightarrow> cs = []"
  by (induction cs arbitrary: i) (auto split: option.splits)

lemma extractOne_from_Some:
  "extractOne_from scorer i q cs = Some (c, s, k) \<Longrightarrow>
     i \<le> k \<and> k - i < length cs \<and> c = cs ! (k - i) \<and> s = scorer q c
     \<and> (\<forall>c' \<in> set cs. scorer q c' \<le> s)
     \<and> (\<forall>j < k - i. scorer q (cs ! j) < s)"
proof (induction cs arbitrary: i c s k)
  case Nil
  then show ?case by simp
next
  case (Cons a cs)
  show ?case
  proof (cases "extractOne_from scorer (Suc i) q cs")
    case None
    then have "cs = []" by (simp add: extractOne_from_None)
    with Cons.prems show ?thesis by auto
  next
    case (Some r)
    obtain c' s' k' where r: "r = (c', s', k')" by (cases r) auto
    from Cons.IH[OF Some[unfolded r]] have ih:
      "Suc i \<le> k'" "k' - Suc i < length cs" "c' = cs ! (k' - Suc i)" "s' = scorer q c'"
      "\<forall>x \<in> set cs. scorer q x \<le> s'" "\<forall>j < k' - Suc i. scorer q (cs ! j) < s'"
      by auto
    show ?thesis
    proof (cases "s' > scorer q a")
      case True
      with Some r Cons.prems have eq: "c = c'" "s = s'" "k = k'" by auto
      from ih(1) have ki: "k' - i = Suc (k' - Suc i)" by arith
      have "\<forall>j < k' - i. scorer q ((a # cs) ! j) < s'"
      proof (intro allI impI)
        fix j assume "j < k' - i"
        with ki ih(6) True show "scorer q ((a # cs) ! j) < s'" by (cases j) auto
      qed
      with ih True eq ki show ?thesis by auto
    next
      case False
      with Some r Cons.prems have eq: "c = a" "s = scorer q a" "k = i" by auto
      with False ih(5) show ?thesis by auto
    qed
  qed
qed

lemma extractOne_spec:
  assumes "choices \<noteq> []"
  shows "\<exists>k < length choices.
           extractOne scorer q choices = Some (choices ! k, scorer q (choices ! k), k)
         \<and> (\<forall>j < length choices. scorer q (choices ! j) \<le> scorer q (choices ! k))
         \<and> (\<forall>j < k. scorer q (choices ! j) < scorer q (choices ! k))"
proof -
  from assms obtain r where r: "extractOne_from scorer 0 q choices = Some r"
    using extractOne_from_None[of scorer 0 q choices] by (cases "extractOne_from scorer 0 q choices") auto
  obtain c s k where "r = (c, s, k)" by (cases r) auto
  with r have e: "extractOne_from scorer 0 q choices = Some (c, s, k)" by simp
  from extractOne_from_Some[OF e] have p: "k < length choices" "c = choices ! k" "s = scorer q c"
    "\<forall>c' \<in> set choices. scorer q c' \<le> s" "\<forall>j < k. scorer q (choices ! j) < s"
    by auto
  from p(4) have "\<forall>j < length choices. scorer q (choices ! j) \<le> s" by simp
  with e p show ?thesis unfolding extractOne_def by blast
qed

lemma find_time_for_text_best:
  assumes "data \<noteq> []"
  shows "\<exists>k < length data.
           (\<forall>j < length data. scorer q (seg_text (data ! j)) \<le> scorer q (seg_text (data ! k)))
         \<and> (\<forall>j < k. scorer q (seg_text (data ! j)) < scorer q (seg_text (data ! k)))
         \<and> find_time_for_text scorer (SegmentList data) q =
             (if 80 < scorer q (seg_text (data ! k)) then Some (seg_start (data ! k)) else None)"
proof -
  from assms have "map seg_text data \<noteq> []" by simp
  from extractOne_spec[OF this, of scorer q] obtain k where
    k: "k < length data"
    and e: "extractOne scorer q (map seg_text data) =
              Some (map seg_text data ! k, scorer q (map seg_text data ! k), k)"
    and mx: "\<forall>j < length (map seg_text data).
               scorer q (map seg_text data ! j) \<le> scorer q (map seg_text data ! k)"
    and fst: "\<forall>j < k. scorer q (map seg_text data ! j) < scorer q (map seg_text data ! k)"
    by auto
  from k have nk: "map seg_text data ! k = seg_text (data ! k)" by simp
  have mx': "\<forall>j < length data. scorer q (seg_text (data ! j)) \<le> scorer q (seg_text (data ! k))"
    using mx k by simp
  have fst': "\<forall>j < k. scorer q (seg_text (data ! j)) < scorer q (seg_text (data ! k))"
    using fst k by simp
  have "find_time_for_text scorer (SegmentList data) q =
             (if 80 < scorer q (seg_text (data ! k)) then Some (seg_start (data ! k)) else None)"
    by (simp add: e nk)
  with k mx' fst' show ?thesis by blast
qed

text \<open>
  C4 (as amended). \<open>find_time_for_text\<close> returns the start of the first segment of
  greatest score when that score exceeds 80, and \<open>None\<close> otherwise (also for a
  transcript without segments). For a segment index \<open>i\<close> and a scorer that gives
  the text of segment \<open>i\<close> against itself the greatest score 100, the search for
  that text is never \<open>None\<close>: it returns the start of the first segment \<open>k \<le> i\<close>
  that scores 100. The result lies between the start and the end of segment \<open>i\<close>
  when no earlier segment scores 100 and the segment's start is not after its end.
\<close>

theorem find_time_for_text_spec:
  "(data = [] \<longrightarrow> find_time_for_text scorer (SegmentList data) q = None)
   \<and> (data \<noteq> [] \<longrightarrow> (\<exists>k < length data.
          (\<forall>j < length data. scorer q (seg_text (data ! j)) \<le> scorer q (seg_text (data ! k)))
        \<and> (\<forall>j < k. scorer q (seg_text (data ! j)) < scorer q (seg_text (data ! k)))
        \<and> find_time_for_text scorer (SegmentList data) q =
            (if 80 < scorer q (seg_text (data ! k)) then Some (seg_start (data ! k)) else None)))
   \<and> (\<forall>i < length data.
         q = seg_text (data ! i) \<and> scorer q q = 100 \<and> (\<forall>c. scorer q c \<le> 100) \<longrightarrow>
         (\<exists>k \<le> i. scorer q (seg_text (data ! k)) = 100
            \<and> (\<forall>j < k. scorer q (seg_text (data ! j)) < 100)
            \<and> find_time_for_text scorer (SegmentList data) q = Some (seg_start (data ! k))
            \<and> ((\<forall>j < i. scorer q (seg_text (data ! j)) < 100)
                  \<and> seg_start (data ! i) \<le> seg_end (data ! i) \<longrightarrow>
                k = i \<and> seg_start (data ! i) \<le> seg_start (data ! k)
                  \<and> seg_start (data ! k) \<le> seg_end (data ! i))))"
proof (intro conjI impI allI)
  assume "data = []"
  then show "find_time_for_text scorer (SegmentList data) q = None"
    by (simp add: extractOne_def)
next
  assume "data \<noteq> []"
  from find_time_for_text_best[OF this]
  show "\<exists>k < length data.
          (\<forall>j < length data. scorer q (seg_text (data ! j)) \<le> scorer q (seg_text (data ! k)))
        \<and> (\<forall>j < k. scorer q (seg_text (data ! j)) < scorer q (seg_text (data ! k)))
        \<and> find_time_for_text scorer (SegmentList data) q =
            (if 80 < scorer q (seg_text (data ! k)) then Some (seg_start (data ! k)) else None)" .
next
  fix i
  assume i: "i < length data"
    and h: "q = seg_text (data ! i) \<and> scorer q q = 100 \<and> (\<forall>c. scorer q c \<le> 100)"
  from i have "data \<noteq> []" by auto
  from find_time_for_text_best[OF this, of scorer q] obtain k where
    k: "k < length data"
    and mx: "\<forall>j < length data. scorer q (seg_text (data ! j)) \<le> scorer q (seg_text (data ! k))"
    and fst: "\<forall>j < k. scorer q (seg_text (data ! j)) < scorer q (seg_text (data ! k))"
    and f: "find_time_for_text scorer (SegmentList data) q =
            (if 80 < scorer q (seg_text (data ! k)) then Some (seg_start (data ! k)) else None)"
    by blast
  from h have si: "scorer q (seg_text (data ! i)) = 100" by metis
  from mx i si have "100 \<le> scorer q (seg_text (data ! k))" by force
  moreover from h have "scorer q (seg_text (data ! k)) \<le> 100" by blast
  ultimately have sk: "scorer q (seg_text (data ! k)) = 100" by simp
  have ki: "k \<le> i"
  proof (rule ccontr)
    assume "\<not> k \<le> i"
    then have "i < k" by simp
    with fst si sk show False by force
  qed
  from f sk have r: "find_time_for_text scorer (SegmentList data) q = Some (seg_start (data ! k))"
    by simp
  from fst sk have fst100: "\<forall>j < k. scorer q (seg_text (data ! j)) < 100" by simp
  have last: "(\<forall>j < i. scorer q (seg_text (data ! j)) < 100)
                  \<and> seg_start (data ! i) \<le> seg_end (data ! i) \<longrightarrow>
                k = i \<and> seg_start (data ! i) \<le> seg_start (data ! k)
                  \<and> seg_start (data ! k) \<le> seg_end (data ! i)"
  proof
    assume a: "(\<forall>j < i. scorer q (seg_text (data ! j)) < 100)
                  \<and> seg_start (data ! i) \<le> seg_end (data ! i)"
    have "k = i"
    proof (rule ccontr)
      assume "k \<noteq> i"
      with ki have "k < i" by simp
      with a sk show False by force
    qed
    with a show "k = i \<and> seg_start (data ! i) \<le> seg_start (data ! k)
                  \<and> seg_start (data ! k) \<le> seg_end (data ! i)" by simp
  qed
  from ki sk fst100 r last
  show "\<exists>k \<le> i. scorer q (seg_text (data ! k)) = 100
            \<and> (\<forall>j < k. scorer q (seg_text (data ! j)) < 100)
            \<and> find_time_for_text scorer (SegmentList data) q = Some (seg_start (data ! k))
            \<and> ((\<forall>j < i. scorer q (seg_text (data ! j)) < 100)
                  \<and> seg_start (data ! i) \<le> seg_end (data ! i) \<longrightarrow>
                k = i \<and> seg_start (data ! i) \<le> seg_start (data ! k)
                  \<and> seg_start (data ! k) \<le> seg_end (data ! i))"
    by blast
qed

theorem find_time_for_text_spec_witness:
  "short_transcript \<noteq> [] \<and> ''cd'' = seg_text (short_transcript ! 1)
   \<and> exact_scorer ''cd'' ''cd'' = 100
   \<and> find_time_for_text exact_scorer (SegmentList short_transcript) ''cd'' = Some 1
   \<and> seg_start (short_transcript ! 1) \<le> 1 \<and> 1 \<le> seg_end (short_transcript ! 1)"
proof -
  have ne: "short_transcript \<noteq> []" by (simp add: short_transcript_def)
  have i: "(1 :: nat) < length short_transcript" by (simp add: short_transcript_def)
  have q: "''cd'' = seg_text (short_transcript ! 1)" by (simp add: short_transcript_def)
  have self: "exact_scorer ''cd'' ''cd'' = 100" by (simp add: exact_scorer_def)
  have top: "\<forall>c. exact_scorer ''cd'' c \<le> 100" by (simp add: exact_scorer_def)
  have earlier: "\<forall>j < 1. exact_scorer ''cd'' (seg_text (short_transcript ! j)) < 100"
    by (simp add: short_transcript_def exact_scorer_def)
  have se: "seg_start (short_transcript ! 1) = 1" "seg_end (short_transcript ! 1) = 2"
    by (simp_all add: short_transcript_def)
  from find_time_for_text_spec[of short_transcript exact_scorer "''cd''"] i q self top
  obtain k where k: "k \<le> 1"
    "find_time_for_text exact_scorer (SegmentList short_transcript) ''cd''
       = Some (seg_start (short_transcript ! k))"
    "(\<forall>j < 1. exact_scorer ''cd'' (seg_text (short_transcript ! j)) < 100)
       \<and> seg_start (short_transcript ! 1) \<le> seg_end (short_transcript ! 1) \<longrightarrow> k = 1"
    by blast
  from k(3) earlier se have "k = 1" by simp
  with k(2) se ne q self show ?thesis by simp
qed

theorem find_time_for_text_duplicate_counterexample:
  "(1 :: nat) < length echo_transcript
   \<and> exact_scorer (seg_text (echo_transcript ! 1)) (seg_text (echo_transcript ! 1)) = 100
   \<and> find_time_for_text exact_scorer (SegmentList echo_transcript)
        (seg_text (echo_transcript ! 1)) = Some 0
   \<and> \<not> (seg_start (echo_transcript ! 1) \<le> 0 \<and> 0 \<le> seg_end (echo_transcript ! 1))"
  by (simp add: echo_transcript_def exact_scorer_def extractOne_def)

section \<open>Sync cycle: auxiliary facts\<close>

lemma sync_mapping_suppressed:
  assumes "status m = ''active''"
    and "\<bar>abs_get_progress (abs_reply rd) - (case prev of None \<Rightarrow> 0 | Some p \<Rightarrow> last_abs_ts p)\<bar>
           \<le> delta_abs_thresh cfg"
    and "\<bar>kosync_get_progress (ko_reply rd) - (case prev of None \<Rightarrow> 0 | Some p \<Rightarrow> last_kosync_pct p)\<bar>
           \<le> delta_kosync_thresh cfg"
    and "\<bar>or_zero (st_progress rd) - (case prev of None \<Rightarrow> 0 | Some p \<Rightarrow> last_storyteller_pct p)\<bar>
           \<le> delta_kosync_thresh cfg"
  shows "sync_mapping cfg c now m rd prev =
           Suppressed
             \<lparr>last_abs_ts = abs_get_progress (abs_reply rd),
              last_abs_pct = or_zero (abs_to_percentage (abs_get_progress (abs_reply rd))
                                        (transcript_json rd)),
              last_kosync_pct = kosync_get_progress (ko_reply rd),
              last_storyteller_pct = or_zero (st_progress rd),
              last_updated = (case prev of None \<Rightarrow> 0 | Some p \<Rightarrow> last_updated p)\<rparr>"
  using assms unfolding sync_mapping_def Let_def by (simp add: not_less)

lemma first_max_spec:
  "first_max best xs \<in> set (best # xs)
   \<and> (\<forall>e \<in> set (best # xs). snd e \<le> snd (first_max best xs))"
proof (induction xs arbitrary: best)
  case Nil
  then show ?case by simp
next
  case (Cons x xs)
  from Cons.IH[of "if snd x > snd best then x else best"] show ?case
    by (auto split: if_splits)
qed

lemma max_entry_progress_map:
  "\<exists>leader v. max_entry (progress_map ko st ap) = Some (leader, v)
      \<and> (leader, v) \<in> set (progress_map ko st ap)
      \<and> (\<forall>e \<in> set (progress_map ko st ap). snd e \<le> v)"
proof -
  obtain x xs where pm: "progress_map ko st ap = x # xs"
    by (simp add: progress_map_def)
  obtain leader v where lv: "first_max x xs = (leader, v)" by (cases "first_max x xs") auto
  from first_max_spec[of x xs] lv pm
  have "(leader, v) \<in> set (progress_map ko st ap)"
       "\<forall>e \<in> set (progress_map ko st ap). snd e \<le> v" by auto
  moreover from pm lv have "max_entry (progress_map ko st ap) = Some (leader, v)" by simp
  ultimately show ?thesis by blast
qed

lemma sync_mapping_reconciled:
  assumes "sync_mapping cfg c now m rd prev = Reconciled cands leader ws st"
  shows "cands = progress_map (kosync_get_progress (ko_reply rd)) (or_zero (st_progress rd))
                   (abs_to_percentage (abs_get_progress (abs_reply rd)) (transcript_json rd))
       \<and> (\<exists>v. max_entry cands = Some (leader, v))
       \<and> last_updated st = now"
proof -
  let ?pm = "progress_map (kosync_get_progress (ko_reply rd)) (or_zero (st_progress rd))
                   (abs_to_percentage (abs_get_progress (abs_reply rd)) (transcript_json rd))"
  from max_entry_progress_map obtain l v where lv: "max_entry ?pm = Some (l, v)" by blast
  from assms lv show ?thesis
    unfolding sync_mapping_def Let_def
    by (auto split: if_splits prod.splits)
qed

lemma first_max_index:
  "\<exists>k \<le> length xs. first_max best xs = (best # xs) ! k
      \<and> (\<forall>e \<in> set (best # xs). snd e \<le> snd ((best # xs) ! k))
      \<and> (\<forall>j < k. snd ((best # xs) ! j) < snd ((best # xs) ! k))"
proof (induction xs arbitrary: best)
  case Nil
  then show ?case by simp
next
  case (Cons x xs)
  show ?case
  proof (cases "snd x > snd best")
    case True
    from Cons.IH[of x] obtain k where k: "k \<le> length xs" "first_max x xs = (x # xs) ! k"
      "\<forall>e \<in> set (x # xs). snd e \<le> snd ((x # xs) ! k)"
      "\<forall>j < k. snd ((x # xs) ! j) < snd ((x # xs) ! k)" by blast
    from k(3) have xk: "snd x \<le> snd ((x # xs) ! k)" by simp
    have a: "first_max best (x # xs) = (best # x # xs) ! Suc k" using True k(2) by simp
    have b: "\<forall>e \<in> set (best # x # xs). snd e \<le> snd ((best # x # xs) ! Suc k)"
      using k(3) xk True by auto
    have c: "\<forall>j < Suc k. snd ((best # x # xs) ! j) < snd ((best # x # xs) ! Suc k)"
    proof (intro allI impI)
      fix j assume "j < Suc k"
      then show "snd ((best # x # xs) ! j) < snd ((best # x # xs) ! Suc k)"
        using k(4) xk True by (cases j) auto
    qed
    from k(1) a b c show ?thesis by (intro exI[of _ "Suc k"]) simp
  next
    case False
    from Cons.IH[of best] obtain k where k: "k \<le> length xs" "first_max best xs = (best # xs) ! k"
      "\<forall>e \<in> set (best # xs). snd e \<le> snd ((best # xs) ! k)"
      "\<forall>j < k. snd ((best # xs) ! j) < snd ((best # xs) ! k)" by blast
    from k(3) have bk: "snd best \<le> snd ((best # xs) ! k)" by simp
    have fm: "first_max best (x # xs) = first_max best xs" using False by simp
    show ?thesis
    proof (cases k)
      case 0
      with k fm False show ?thesis by (intro exI[of _ 0]) auto
    next
      case (Suc m)
      have a: "first_max best (x # xs) = (best # x # xs) ! Suc (Suc m)"
        using fm k(2) Suc by simp
      have b: "\<forall>e \<in> set (best # x # xs). snd e \<le> snd ((best # x # xs) ! Suc (Suc m))"
        using k(3) bk False Suc by auto
      from k(4) Suc have b0: "snd best < snd (xs ! m)" by auto
      have c: "\<forall>j < Suc (Suc m). snd ((best # x # xs) ! j) < snd ((best # x # xs) ! Suc (Suc m))"
      proof (intro allI impI)
        fix j assume j: "j < Suc (Suc m)"
        show "snd ((best # x # xs) ! j) < snd ((best # x # xs) ! Suc (Suc m))"
        proof (cases j)
          case 0
          with b0 show ?thesis by simp
        next
          case (Suc j')
          show ?thesis
          proof (cases j')
            case 0
            with Suc b0 False show ?thesis by simp
          next
            case (Suc j'')
            with \<open>j = Suc j'\<close> j have "Suc j'' < k" using \<open>k = Suc m\<close> by simp
            with k(4) have "snd ((best # xs) ! Suc j'') < snd ((best # xs) ! k)" by blast
            with Suc \<open>j = Suc j'\<close> \<open>k = Suc m\<close> show ?thesis by simp
          qed
        qed
      qed
      from k(1) Suc a b c show ?thesis by (intro exI[of _ "Suc (Suc m)"]) simp
    qed
  qed
qed

lemma max_entry_first:
  assumes "max_entry cands = Some (leader, v)"
  shows "\<exists>k < length cands. cands ! k = (leader, v)
      \<and> (\<forall>e \<in> set cands. snd e \<le> v)
      \<and> (\<forall>j < k. snd (cands ! j) < v)"
proof (cases cands)
  case Nil
  with assms show ?thesis by simp
next
  case (Cons x xs)
  with assms have fm: "first_max x xs = (leader, v)" by simp
  from first_max_index[of xs x] obtain k where k: "k \<le> length xs"
    "first_max x xs = (x # xs) ! k"
    "\<forall>e \<in> set (x # xs). snd e \<le> snd ((x # xs) ! k)"
    "\<forall>j < k. snd ((x # xs) ! j) < snd ((x # xs) ! k)" by blast
  from k(2) fm have eq: "(x # xs) ! k = (leader, v)" by simp
  from k(1) have "k < length cands" by (simp add: Cons)
  moreover from eq have "cands ! k = (leader, v)" by (simp add: Cons)
  moreover from k(3) eq have "\<forall>e \<in> set cands. snd e \<le> v" by (simp add: Cons)
  moreover from k(4) eq have "\<forall>j < k. snd (cands ! j) < v" by (simp add: Cons)
  ultimately show ?thesis by blast
qed

section \<open>Sync cycle: drift suppression and the reconciliation time\<close>

text \<open>
  C5. For an active mapping, when no source's reading differs from its stored
  baseline by more than that source's threshold (seconds for the audio source,
  a fraction for the two percentage sources), the cycle issues no write call, and
  the saved state holds the current readings as the new baselines.
\<close>

theorem drift_suppression:
  assumes "status m = ''active''"
    and "\<bar>abs_get_progress (abs_reply rd) - (case prev of None \<Rightarrow> 0 | Some p \<Rightarrow> last_abs_ts p)\<bar>
           \<le> delta_abs_thresh cfg"
    and "\<bar>kosync_get_progress (ko_reply rd) - (case prev of None \<Rightarrow> 0 | Some p \<Rightarrow> last_kosync_pct p)\<bar>
           \<le> delta_kosync_thresh cfg"
    and "\<bar>or_zero (st_progress rd) - (case prev of None \<Rightarrow> 0 | Some p \<Rightarrow> last_storyteller_pct p)\<bar>
           \<le> delta_kosync_thresh cfg"
  shows "writes_of (sync_mapping cfg c now m rd prev) = []
       \<and> (\<exists>st. saved_state (sync_mapping cfg c now m rd prev) = Some st
             \<and> last_abs_ts st = abs_get_progress (abs_reply rd)
             \<and> last_abs_pct st = or_zero (abs_to_percentage (abs_get_progress (abs_reply rd))
                                             (transcript_json rd))
             \<and> last_kosync_pct st = kosync_get_progress (ko_reply rd)
             \<and> last_storyteller_pct st = or_zero (st_progress rd))"
  by (simp add: sync_mapping_suppressed[OF assms])

theorem drift_suppression_witness:
  "status active_mapping = ''active''
   \<and> sync_mapping demo_cfg demo_collab 2000 active_mapping quiet_readings (Some demo_prev) =
       Suppressed \<lparr>last_abs_ts = 130, last_abs_pct = 0, last_kosync_pct = 101 / 200,
                   last_storyteller_pct = 1 / 2, last_updated = 1000\<rparr>
   \<and> writes_of (sync_mapping demo_cfg demo_collab 2000 active_mapping quiet_readings
                  (Some demo_prev)) = []"
proof -
  have a: "status active_mapping = ''active''" by (simp add: active_mapping_def)
  have b: "\<bar>abs_get_progress (abs_reply quiet_readings)
             - (case Some demo_prev of None \<Rightarrow> 0 | Some p \<Rightarrow> last_abs_ts p)\<bar>
           \<le> delta_abs_thresh demo_cfg"
    by (simp add: quiet_readings_def demo_prev_def demo_cfg_def)
  have c: "\<bar>kosync_get_progress (ko_reply quiet_readings)
             - (case Some demo_prev of None \<Rightarrow> 0 | Some p \<Rightarrow> last_kosync_pct p)\<bar>
           \<le> delta_kosync_thresh demo_cfg"
    by (simp add: quiet_readings_def demo_prev_def demo_cfg_def)
  have d: "\<bar>or_zero (st_progress quiet_readings)
             - (case Some demo_prev of None \<Rightarrow> 0 | Some p \<Rightarrow> last_storyteller_pct p)\<bar>
           \<le> delta_kosync_thresh demo_cfg"
    by (simp add: quiet_readings_def demo_prev_def demo_cfg_def)
  have e: "sync_mapping demo_cfg demo_collab 2000 active_mapping quiet_readings (Some demo_prev) =
       Suppressed \<lparr>last_abs_ts = 130, last_abs_pct = 0, last_kosync_pct = 101 / 200,
                   last_storyteller_pct = 1 / 2, last_updated = 1000\<rparr>"
    by code_simp
  from drift_suppression[OF a b c d, of demo_collab 2000] a e show ?thesis by simp
qed

text \<open>
  C10. For an active mapping: on a drift-suppressed cycle the saved state keeps the
  previous value of \<open>last_updated\<close> (0 when there was no entry); on every other
  cycle a leader is chosen, propagation is attempted and \<open>last_updated\<close> is the
  current time.
\<close>

theorem last_updated_frame:
  assumes "status m = ''active''"
  shows "(\<bar>abs_get_progress (abs_reply rd) - (case prev of None \<Rightarrow> 0 | Some p \<Rightarrow> last_abs_ts p)\<bar>
            \<le> delta_abs_thresh cfg
          \<and> \<bar>kosync_get_progress (ko_reply rd) - (case prev of None \<Rightarrow> 0 | Some p \<Rightarrow> last_kosync_pct p)\<bar>
            \<le> delta_kosync_thresh cfg
          \<and> \<bar>or_zero (st_progress rd) - (case prev of None \<Rightarrow> 0 | Some p \<Rightarrow> last_storyteller_pct p)\<bar>
            \<le> delta_kosync_thresh cfg
          \<longrightarrow> (\<exists>st. sync_mapping cfg c now m rd prev = Suppressed st
                 \<and> last_updated st = (case prev of None \<Rightarrow> 0 | Some p \<Rightarrow> last_updated p)))
       \<and> (\<not> (\<bar>abs_get_progress (abs_reply rd) - (case prev of None \<Rightarrow> 0 | Some p \<Rightarrow> last_abs_ts p)\<bar>
            \<le> delta_abs_thresh cfg
          \<and> \<bar>kosync_get_progress (ko_reply rd) - (case prev of None \<Rightarrow> 0 | Some p \<Rightarrow> last_kosync_pct p)\<bar>
            \<le> delta_kosync_thresh cfg
          \<and> \<bar>or_zero (st_progress rd) - (case prev of None \<Rightarrow> 0 | Some p \<Rightarrow> last_storyteller_pct p)\<bar>
            \<le> delta_kosync_thresh cfg)
          \<longrightarrow> (\<exists>cands leader ws st. sync_mapping cfg c now m rd prev = Reconciled cands leader ws st
                 \<and> last_updated st = now))"
proof (intro conjI impI)
  assume q: "\<bar>abs_get_progress (abs_reply rd) - (case prev of None \<Rightarrow> 0 | Some p \<Rightarrow> last_abs_ts p)\<bar>
            \<le> delta_abs_thresh cfg
          \<and> \<bar>kosync_get_progress (ko_reply rd) - (case prev of None \<Rightarrow> 0 | Some p \<Rightarrow> last_kosync_pct p)\<bar>
            \<le> delta_kosync_thresh cfg
          \<and> \<bar>or_zero (st_progress rd) - (case prev of None \<Rightarrow> 0 | Some p \<Rightarrow> last_storyteller_pct p)\<bar>
            \<le> delta_kosync_thresh cfg"
  then show "\<exists>st. sync_mapping cfg c now m rd prev = Suppressed st
                 \<and> last_updated st = (case prev of None \<Rightarrow> 0 | Some p \<Rightarrow> last_updated p)"
    using sync_mapping_suppressed[OF assms, of rd prev cfg c now] by simp
next
  assume nq: "\<not> (\<bar>abs_get_progress (abs_reply rd) - (case prev of None \<Rightarrow> 0 | Some p \<Rightarrow> last_abs_ts p)\<bar>
            \<le> delta_abs_thresh cfg
          \<and> \<bar>kosync_get_progress (ko_reply rd) - (case prev of None \<Rightarrow> 0 | Some p \<Rightarrow> last_kosync_pct p)\<bar>
            \<le> delta_kosync_thresh cfg
          \<and> \<bar>or_zero (st_progress rd) - (case prev of None \<Rightarrow> 0 | Some p \<Rightarrow> last_storyteller_pct p)\<bar>
            \<le> delta_kosync_thresh cfg)"
  let ?pm = "progress_map (kosync_get_progress (ko_reply rd)) (or_zero (st_progress rd))
                   (abs_to_percentage (abs_get_progress (abs_reply rd)) (transcript_json rd))"
  from max_entry_progress_map obtain l v where lv: "max_entry ?pm = Some (l, v)" by blast
  obtain ws fts fpct where pr: "propagate c m (transcript_json rd) l v
        (abs_get_progress (abs_reply rd)) (kosync_get_progress (ko_reply rd))
        (or_zero (st_progress rd))
        (abs_to_percentage (abs_get_progress (abs_reply rd)) (transcript_json rd)) = (ws, fts, fpct)"
    by (metis prod_cases3)
  from assms nq lv pr
  have "sync_mapping cfg c now m rd prev = Reconciled ?pm l ws
          \<lparr>last_abs_ts = fts,
           last_abs_pct = or_zero (abs_to_percentage fts (transcript_json rd)),
           last_kosync_pct = fpct, last_storyteller_pct = fpct, last_updated = now\<rparr>"
    unfolding sync_mapping_def Let_def by (auto simp: not_le)
  then show "\<exists>cands leader ws st. sync_mapping cfg c now m rd prev = Reconciled cands leader ws st
                 \<and> last_updated st = now"
    by simp
qed

theorem last_updated_frame_witness:
  "status active_mapping = ''active''
   \<and> sync_mapping demo_cfg demo_collab 2000 active_mapping quiet_readings (Some demo_prev) =
       Suppressed \<lparr>last_abs_ts = 130, last_abs_pct = 0, last_kosync_pct = 101 / 200,
                   last_storyteller_pct = 1 / 2, last_updated = 1000\<rparr>
   \<and> last_updated demo_prev = 1000
   \<and> (\<exists>cands leader ws st.
         sync_mapping demo_cfg demo_collab 2000 active_mapping moved_readings (Some demo_prev)
           = Reconciled cands leader ws st \<and> last_updated st = 2000)"
proof -
  have a: "status active_mapping = ''active''" by (simp add: active_mapping_def)
  have e: "sync_mapping demo_cfg demo_collab 2000 active_mapping quiet_readings (Some demo_prev) =
       Suppressed \<lparr>last_abs_ts = 130, last_abs_pct = 0, last_kosync_pct = 101 / 200,
                   last_storyteller_pct = 1 / 2, last_updated = 1000\<rparr>"
    by code_simp
  have p: "last_updated demo_prev = 1000" by (simp add: demo_prev_def)
  have moved: "\<not> (\<bar>abs_get_progress (abs_reply moved_readings)
                    - (case Some demo_prev of None \<Rightarrow> 0 | Some p \<Rightarrow> last_abs_ts p)\<bar>
                  \<le> delta_abs_thresh demo_cfg
            \<and> \<bar>kosync_get_progress (ko_reply moved_readings)
                    - (case Some demo_prev of None \<Rightarrow> 0 | Some p \<Rightarrow> last_kosync_pct p)\<bar>
                  \<le> delta_kosync_thresh demo_cfg
            \<and> \<bar>or_zero (st_progress moved_readings)
                    - (case Some demo_prev of None \<Rightarrow> 0 | Some p \<Rightarrow> last_storyteller_pct p)\<bar>
                  \<le> delta_kosync_thresh demo_cfg)"
    by (simp add: moved_readings_def demo_prev_def demo_cfg_def)
  from last_updated_frame[OF a, of moved_readings "Some demo_prev" demo_cfg demo_collab 2000] moved
  have r: "\<exists>cands leader ws st.
         sync_mapping demo_cfg demo_collab 2000 active_mapping moved_readings (Some demo_prev)
           = Reconciled cands leader ws st \<and> last_updated st = 2000"
    by blast
  from a e p r show ?thesis by blast
qed

section \<open>Sync cycle: the candidates for leader\<close>

text \<open>
  C2 (as amended). In a cycle that reaches leader selection, the candidates are
  KOSYNC and STORYTELLER, always, each with its reading or with 0 when the reading
  is unavailable, followed by ABS exactly when the transcript duration is
  positive; a failed audio read counts as 0 seconds and enters as position 0 when
  a transcript exists. The leader is the first candidate, in that order, among
  those of greatest position: every earlier candidate has a strictly smaller one.
\<close>

theorem leader_candidates:
  assumes "sync_mapping cfg c now m rd prev = Reconciled cands leader ws st"
  shows "cands = [(KOSYNC, kosync_get_progress (ko_reply rd)),
                  (STORYTELLER, or_zero (st_progress rd))]
                 @ (case abs_to_percentage (abs_get_progress (abs_reply rd)) (transcript_json rd) of
                      None \<Rightarrow> [] | Some p \<Rightarrow> [(ABS, p)])
       \<and> (ABS \<in> fst ` set cands \<longleftrightarrow> 0 < get_transcript_duration (transcript_json rd))
       \<and> (ko_reply rd = NoReply \<longrightarrow> (KOSYNC, 0) \<in> set cands)
       \<and> (st_progress rd = None \<longrightarrow> (STORYTELLER, 0) \<in> set cands)
       \<and> (abs_reply rd = NoReply \<and> 0 < get_transcript_duration (transcript_json rd)
            \<longrightarrow> (ABS, 0) \<in> set cands)
       \<and> (\<exists>v. (leader, v) \<in> set cands \<and> (\<forall>e \<in> set cands. snd e \<le> v))
       \<and> (\<exists>k v. k < length cands \<and> cands ! k = (leader, v)
              \<and> (\<forall>e \<in> set cands. snd e \<le> v)
              \<and> (\<forall>j < k. snd (cands ! j) < v))"
proof -
  let ?ko = "kosync_get_progress (ko_reply rd)"
  let ?st = "or_zero (st_progress rd)"
  let ?ap = "abs_to_percentage (abs_get_progress (abs_reply rd)) (transcript_json rd)"
  from sync_mapping_reconciled[OF assms] obtain v where
    cands: "cands = progress_map ?ko ?st ?ap" and mx: "max_entry cands = Some (leader, v)"
    by blast
  from max_entry_progress_map[of ?ko ?st ?ap] mx cands
  have lead: "(leader, v) \<in> set cands \<and> (\<forall>e \<in> set cands. snd e \<le> v)" by auto
  from max_entry_first[OF mx]
  have first: "\<exists>k v. k < length cands \<and> cands ! k = (leader, v)
              \<and> (\<forall>e \<in> set cands. snd e \<le> v)
              \<and> (\<forall>j < k. snd (cands ! j) < v)"
    by blast
  have shape: "cands = [(KOSYNC, ?ko), (STORYTELLER, ?st)]
                 @ (case ?ap of None \<Rightarrow> [] | Some p \<Rightarrow> [(ABS, p)])"
    by (simp add: cands progress_map_def)
  have ab: "ABS \<in> fst ` set cands \<longleftrightarrow> 0 < get_transcript_duration (transcript_json rd)"
    by (simp add: shape abs_to_percentage_def Let_def)
  have ko: "ko_reply rd = NoReply \<longrightarrow> (KOSYNC, 0) \<in> set cands" by (simp add: shape)
  have sto: "st_progress rd = None \<longrightarrow> (STORYTELLER, 0) \<in> set cands" by (simp add: shape)
  have az: "abs_reply rd = NoReply \<and> 0 < get_transcript_duration (transcript_json rd)
            \<longrightarrow> (ABS, 0) \<in> set cands"
    by (simp add: shape abs_to_percentage_def Let_def)
  from shape ab ko sto az lead first show ?thesis by blast
qed

theorem leader_candidates_witness:
  "sync_mapping demo_cfg demo_collab 2000 active_mapping moved_readings (Some demo_prev) =
     Reconciled [(KOSYNC, 3 / 10), (STORYTELLER, 0), (ABS, 1 / 2)] ABS
       [KosyncUpdate ''k1'' (1 / 2) (Some ''/body/p3''),
        StorytellerUpdate ''book.epub'' (1 / 2), HardcoverSync (1 / 2)]
       \<lparr>last_abs_ts = 15, last_abs_pct = 1 / 2, last_kosync_pct = 1 / 2,
        last_storyteller_pct = 1 / 2, last_updated = 2000\<rparr>
   \<and> st_progress moved_readings = None
   \<and> 0 < get_transcript_duration (transcript_json moved_readings)
   \<and> (STORYTELLER, 0) \<in> set [(KOSYNC, 3 / 10), (STORYTELLER, 0), (ABS, 1 / 2 :: real)]
   \<and> ABS \<in> fst ` set [(KOSYNC, 3 / 10), (STORYTELLER, 0), (ABS, 1 / 2 :: real)]
   \<and> sync_mapping demo_cfg demo_collab 2000 active_mapping tie_readings (Some demo_prev) =
     Reconciled [(KOSYNC, 3 / 5), (STORYTELLER, 3 / 5)] KOSYNC []
       \<lparr>last_abs_ts = 0, last_abs_pct = 0, last_kosync_pct = 3 / 5,
        last_storyteller_pct = 3 / 5, last_updated = 2000\<rparr>
   \<and> (\<exists>k v. k < length [(KOSYNC, 3 / 5), (STORYTELLER, 3 / 5 :: real)]
          \<and> [(KOSYNC, 3 / 5), (STORYTELLER, 3 / 5 :: real)] ! k = (KOSYNC, v))"
proof -
  have e: "sync_mapping demo_cfg demo_collab 2000 active_mapping moved_readings (Some demo_prev) =
     Reconciled [(KOSYNC, 3 / 10), (STORYTELLER, 0), (ABS, 1 / 2)] ABS
       [KosyncUpdate ''k1'' (1 / 2) (Some ''/body/p3''),
        StorytellerUpdate ''book.epub'' (1 / 2), HardcoverSync (1 / 2)]
       \<lparr>last_abs_ts = 15, last_abs_pct = 1 / 2, last_kosync_pct = 1 / 2,
        last_storyteller_pct = 1 / 2, last_updated = 2000\<rparr>"
    by code_simp
  have t: "sync_mapping demo_cfg demo_collab 2000 active_mapping tie_readings (Some demo_prev) =
     Reconciled [(KOSYNC, 3 / 5), (STORYTELLER, 3 / 5)] KOSYNC []
       \<lparr>last_abs_ts = 0, last_abs_pct = 0, last_kosync_pct = 3 / 5,
        last_storyteller_pct = 3 / 5, last_updated = 2000\<rparr>"
    by code_simp
  have s: "st_progress moved_readings = None" by (simp add: moved_readings_def)
  have d: "0 < get_transcript_duration (transcript_json moved_readings)"
    by (simp add: moved_readings_def long_transcript_def)
  from leader_candidates[OF e] s d
  have a: "(STORYTELLER, 0) \<in> set [(KOSYNC, 3 / 10), (STORYTELLER, 0), (ABS, 1 / 2 :: real)]
        \<and> ABS \<in> fst ` set [(KOSYNC, 3 / 10), (STORYTELLER, 0), (ABS, 1 / 2 :: real)]"
    by blast
  from leader_candidates[OF t]
  have b: "\<exists>k v. k < length [(KOSYNC, 3 / 5), (STORYTELLER, 3 / 5 :: real)]
          \<and> [(KOSYNC, 3 / 5), (STORYTELLER, 3 / 5 :: real)] ! k = (KOSYNC, v)"
    by blast
  from e s d a t b show ?thesis by blast
qed

theorem unavailable_source_counterexample:
  "sync_mapping demo_cfg demo_collab 2000 active_mapping failed_readings (Some demo_prev) =
     Reconciled [(KOSYNC, 0), (STORYTELLER, 0)] KOSYNC []
       \<lparr>last_abs_ts = 0, last_abs_pct = 0, last_kosync_pct = 0,
        last_storyteller_pct = 0, last_updated = 2000\<rparr>
   \<and> ko_reply failed_readings = NoReply \<and> st_progress failed_readings = None"
proof -
  have "sync_mapping demo_cfg demo_collab 2000 active_mapping failed_readings (Some demo_prev) =
     Reconciled [(KOSYNC, 0), (STORYTELLER, 0)] KOSYNC []
       \<lparr>last_abs_ts = 0, last_abs_pct = 0, last_kosync_pct = 0,
        last_storyteller_pct = 0, last_updated = 2000\<rparr>"
    by code_simp
  then show ?thesis by (simp add: failed_readings_def)
qed

end
